theory Spec2Isabelle
  imports Complex_Main "HOL-Library.Log_Nat" "HOL-Library.Multiset"
begin

section \<open>JavaScript numbers\<close>

text \<open>
  A JavaScript \<^verbatim>\<open>number\<close> is an IEEE-754 binary64 value. A finite one is represented
  by its exact rational value (\<open>-0\<close> and \<open>+0\<close> are both \<open>Fin 0\<close>: nothing below tells
  them apart, \<^verbatim>\<open>0 !== -0\<close> is false and neither is NaN or infinite); the three
  non-finite values are constructors of their own.
\<close>

datatype number = Fin rat | PInf | NInf | NaN

text \<open>\<^verbatim>\<open>Number.isFinite\<close>.\<close>

fun isFinite :: "number \<Rightarrow> bool" where
  "isFinite (Fin q) = True"
| "isFinite PInf = False"
| "isFinite NInf = False"
| "isFinite NaN = False"

text \<open>The relational operators \<^verbatim>\<open><\<close> and \<^verbatim>\<open><=\<close>: every comparison with NaN is false.\<close>

fun js_lt :: "number \<Rightarrow> number \<Rightarrow> bool" where
  "js_lt NaN y = False"
| "js_lt x NaN = False"
| "js_lt (Fin a) (Fin b) = (a < b)"
| "js_lt (Fin a) PInf = True"
| "js_lt (Fin a) NInf = False"
| "js_lt PInf y = False"
| "js_lt NInf NInf = False"
| "js_lt NInf y = True"

definition js_gt :: "number \<Rightarrow> number \<Rightarrow> bool" where
  "js_gt x y = js_lt y x"

definition js_le :: "number \<Rightarrow> number \<Rightarrow> bool" where
  "js_le x y = (x \<noteq> NaN \<and> y \<noteq> NaN \<and> \<not> js_lt y x)"

text \<open>Strict inequality \<^verbatim>\<open>!==\<close> on numbers: NaN differs from everything, itself included.\<close>

definition js_neq :: "number \<Rightarrow> number \<Rightarrow> bool" where
  "js_neq x y = (x = NaN \<or> y = NaN \<or> x \<noteq> y)"

subsection \<open>Rounding to binary64\<close>

text \<open>
  Every arithmetic operation returns the exact result rounded to the nearest binary64
  value, ties to the even significand. \<open>ilog2 a\<close> is the binary exponent of a positive
  rational (the floor of its logarithm to base 2). The doubles around \<open>q\<close> are the
  multiples of \<open>ulp q\<close>, which is \<open>2 powi (- 52)\<close> times the power of two below
  \<open>\<bar>q\<bar>\<close>, and the spacing \<open>2 powi (- 1074)\<close> of the subnormal numbers below
  \<open>2 powi (- 1022)\<close>. A result that rounds to \<open>2 powi 1024\<close> or beyond overflows to
  an infinity.
\<close>

definition ilog2 :: "rat \<Rightarrow> int" where
  "ilog2 a = (let n = fst (quotient_of a); d = snd (quotient_of a); e = bitlen n - bitlen d
              in if 2 powi e \<le> a then e else e - 1)"

definition round_half_even :: "rat \<Rightarrow> int" where
  "round_half_even x =
     (let f = \<lfloor>x\<rfloor>; r = x - of_int f
      in if r < 1 / 2 then f else if 1 / 2 < r then f + 1 else if even f then f else f + 1)"

definition binade :: "rat \<Rightarrow> int" where
  "binade q = max (ilog2 \<bar>q\<bar>) (- 1022)"

definition ulp :: "rat \<Rightarrow> rat" where
  "ulp q = 2 powi (binade q - 52)"

definition double_overflow :: rat where
  "double_overflow = 2 powi 1024"

definition round_double :: "rat \<Rightarrow> number" where
  "round_double q =
     (if q = 0 then Fin 0
      else let r = of_int (round_half_even (\<bar>q\<bar> / ulp q)) * ulp q
           in if double_overflow \<le> r then (if 0 < q then PInf else NInf)
              else Fin (sgn q * r))"

text \<open>The magnitude that a positive rational rounds to, before the test for overflow.\<close>

definition rounded :: "rat \<Rightarrow> rat" where
  "rounded q = of_int (round_half_even (q / ulp q)) * ulp q"

text \<open>The values a finite double can take all lie on the grid of the subnormal spacing.\<close>

definition subnormal_spacing :: rat where
  "subnormal_spacing = 2 powi (- 1074)"

definition on_grid :: "rat \<Rightarrow> bool" where
  "on_grid q = (of_int \<lfloor>q / subnormal_spacing\<rfloor> = q / subnormal_spacing)"

fun is_number :: "number \<Rightarrow> bool" where
  "is_number (Fin q) = on_grid q"
| "is_number PInf = True"
| "is_number NInf = True"
| "is_number NaN = False"

subsection \<open>Arithmetic\<close>

fun fneg :: "number \<Rightarrow> number" where
  "fneg (Fin a) = Fin (- a)"
| "fneg PInf = NInf"
| "fneg NInf = PInf"
| "fneg NaN = NaN"

fun fadd :: "number \<Rightarrow> number \<Rightarrow> number" where
  "fadd NaN y = NaN"
| "fadd x NaN = NaN"
| "fadd PInf NInf = NaN"
| "fadd NInf PInf = NaN"
| "fadd PInf y = PInf"
| "fadd x PInf = PInf"
| "fadd NInf y = NInf"
| "fadd x NInf = NInf"
| "fadd (Fin a) (Fin b) = round_double (a + b)"

definition fsub :: "number \<Rightarrow> number \<Rightarrow> number" where
  "fsub x y = fadd x (fneg y)"

text \<open>
  Division. A zero divisor is taken as \<open>+0\<close>; no division of the program has a zero
  divisor (each one is guarded, or divides by a constant).
\<close>

fun fdiv :: "number \<Rightarrow> number \<Rightarrow> number" where
  "fdiv NaN y = NaN"
| "fdiv x NaN = NaN"
| "fdiv (Fin a) (Fin b) =
     (if b = 0 then (if a = 0 then NaN else if 0 < a then PInf else NInf)
      else round_double (a / b))"
| "fdiv (Fin a) PInf = Fin 0"
| "fdiv (Fin a) NInf = Fin 0"
| "fdiv PInf (Fin b) = (if b < 0 then NInf else PInf)"
| "fdiv NInf (Fin b) = (if b < 0 then PInf else NInf)"
| "fdiv PInf y = NaN"
| "fdiv NInf y = NaN"

text \<open>\<^verbatim>\<open>Math.round\<close> rounds to the nearest integer, a half towards \<open>+\<infinity>\<close>.\<close>

fun math_round :: "number \<Rightarrow> number" where
  "math_round (Fin q) = Fin (of_int \<lfloor>q + 1 / 2\<rfloor>)"
| "math_round x = x"

text \<open>\<^verbatim>\<open>Math.max\<close> of two numbers: NaN if either is.\<close>

definition math_max :: "number \<Rightarrow> number \<Rightarrow> number" where
  "math_max x y = (if x = NaN \<or> y = NaN then NaN else if js_lt x y then y else x)"

text \<open>
  \<^verbatim>\<open>Number(x.toFixed(2))\<close>. For \<open>\<bar>x\<bar> < 10^21\<close>, \<^verbatim>\<open>toFixed(2)\<close> writes the sign and
  the decimal \<open>n / 100\<close>, \<open>n\<close> the integer nearest to \<open>\<bar>x\<bar> * 100\<close> (the larger
  one of two), and \<^verbatim>\<open>Number\<close> reads the nearest double back. From \<open>10^21\<close> on, and
  for NaN and the infinities, \<^verbatim>\<open>toFixed\<close> writes what \<^verbatim>\<open>String(x)\<close> writes, which
  \<^verbatim>\<open>Number\<close> reads back as \<open>x\<close>.
\<close>

fun number_toFixed2 :: "number \<Rightarrow> number" where
  "number_toFixed2 (Fin q) =
     (if 10 ^ 21 \<le> \<bar>q\<bar> then Fin q
      else round_double (sgn q * of_int \<lfloor>\<bar>q\<bar> * 100 + 1 / 2\<rfloor> / 100))"
| "number_toFixed2 x = x"

text \<open>The nullish coalescing \<^verbatim>\<open>x ?? d\<close>.\<close>

definition orElse :: "'a option \<Rightarrow> 'a \<Rightarrow> 'a" where
  "orElse x d = (case x of Some v \<Rightarrow> v | None \<Rightarrow> d)"

section \<open>Tasks\<close>

text \<open>
  Modelled from the spec: the declarations of \<^verbatim>\<open>Task\<close>, \<^verbatim>\<open>Priority\<close>, \<^verbatim>\<open>Status\<close> and
  \<^verbatim>\<open>DerivedTask\<close> are imported from \<^verbatim>\<open>@/types\<close>, which is not among the sources. The
  fields are the ones the data model of the specification lists and that the store, the
  form and the CSV export read and write. Timestamps are ISO strings, as
  \<^verbatim>\<open>toISOString\<close> writes them; an optional field is an \<open>option\<close>.
\<close>

datatype priority = High | Medium | Low

datatype status = Todo | InProgress | Done

record task =
  task_id :: string
  title :: string
  revenue :: number
  timeTaken :: number
  priority :: priority
  status :: status
  task_notes :: "string option"
  createdAt :: string
  completedAt :: "string option"

text \<open>\<^verbatim>\<open>TaskFormPayload\<close>, the argument of \<^verbatim>\<open>addTask\<close>.\<close>

record payload =
  payload_id :: "string option"
  payload_title :: string
  payload_revenue :: number
  payload_timeTaken :: number
  payload_priority :: priority
  payload_status :: status
  payload_notes :: "string option"

text \<open>
  \<^verbatim>\<open>Partial<Task>\<close>, the argument of \<^verbatim>\<open>updateTask\<close>: every key may be absent
  (\<open>None\<close>). The two optional fields of a task may also be present with the value
  \<^verbatim>\<open>undefined\<close>, which is \<open>Some None\<close>.
\<close>

record patch =
  patch_id :: "string option"
  patch_title :: "string option"
  patch_revenue :: "number option"
  patch_timeTaken :: "number option"
  patch_priority :: "priority option"
  patch_status :: "status option"
  patch_notes :: "string option option"
  patch_createdAt :: "string option"
  patch_completedAt :: "string option option"

section \<open>The task store\<close>

text \<open>
  The state of \<^verbatim>\<open>useTasks\<close> that the mutations touch: the task list and the
  last-deleted slot. Each mutation is a function from the state before to the state
  after. The two readings of the environment, \<^verbatim>\<open>new Date().toISOString()\<close> and
  \<^verbatim>\<open>crypto.randomUUID()\<close>, are arguments.
\<close>

record store =
  tasks :: "task list"
  lastDeleted :: "task option"

definition addTask :: "payload \<Rightarrow> string \<Rightarrow> string \<Rightarrow> store \<Rightarrow> store" where
  "addTask p now uuid s =
     (let t = \<lparr> task_id = orElse (payload_id p) uuid,
                title = payload_title p,
                revenue = payload_revenue p,
                timeTaken = (if js_gt (payload_timeTaken p) (Fin 0) then payload_timeTaken p else Fin 1),
                priority = payload_priority p,
                status = payload_status p,
                task_notes = payload_notes p,
                createdAt = now,
                completedAt = (if payload_status p = Done then Some now else None) \<rparr>
      in s\<lparr> tasks := tasks s @ [t] \<rparr>)"

text \<open>
  The object spread \<^verbatim>\<open>{ ...t, ...patch, completedAt: ... }\<close>: a key of the patch
  replaces the task's, and \<^verbatim>\<open>completedAt\<close>, written last, replaces both.
\<close>

definition applyPatch :: "patch \<Rightarrow> string \<Rightarrow> task \<Rightarrow> task" where
  "applyPatch p now t =
     \<lparr> task_id = orElse (patch_id p) (task_id t),
       title = orElse (patch_title p) (title t),
       revenue = orElse (patch_revenue p) (revenue t),
       timeTaken = orElse (patch_timeTaken p) (timeTaken t),
       priority = orElse (patch_priority p) (priority t),
       status = orElse (patch_status p) (status t),
       task_notes = orElse (patch_notes p) (task_notes t),
       createdAt = orElse (patch_createdAt p) (createdAt t),
       completedAt = (if status t \<noteq> Done \<and> patch_status p = Some Done
                      then Some now else completedAt t) \<rparr>"

definition updateTask :: "string \<Rightarrow> patch \<Rightarrow> string \<Rightarrow> store \<Rightarrow> store" where
  "updateTask i p now s =
     s\<lparr> tasks := map (\<lambda>t. if task_id t = i then applyPatch p now t else t) (tasks s) \<rparr>"

definition deleteTask :: "string \<Rightarrow> store \<Rightarrow> store" where
  "deleteTask i s =
     (let target = find (\<lambda>t. task_id t = i) (tasks s)
      in s\<lparr> lastDeleted := target, tasks := filter (\<lambda>t. task_id t \<noteq> i) (tasks s) \<rparr>)"

text \<open>
  \<^verbatim>\<open>undoDelete\<close> is the one mutation that reads the state outside an updater: it is
  \<^verbatim>\<open>useCallback(..., [lastDeleted])\<close> and tests and appends the \<^verbatim>\<open>lastDeleted\<close> of the
  render that made it, not the slot of the state it updates. That captured value is the
  argument \<open>seen\<close>. The callback that the render of a state \<open>r\<close> returns is
  \<open>undoDelete (lastDeleted r)\<close>; called before the next render, it acts on a state that
  may differ from \<open>r\<close>.
\<close>

definition undoDelete :: "task option \<Rightarrow> store \<Rightarrow> store" where
  "undoDelete seen s =
     (case seen of
        None \<Rightarrow> s
      | Some t \<Rightarrow> s\<lparr> tasks := tasks s @ [t], lastDeleted := None \<rparr>)"

definition clearLastDeleted :: "store \<Rightarrow> store" where
  "clearLastDeleted s = s\<lparr> lastDeleted := None \<rparr>"

section \<open>Derived values and ranking\<close>

text \<open>
  \<^verbatim>\<open>computeROI\<close>: \<^verbatim>\<open>null\<close> is \<open>None\<close>. The quotient is a binary64 division, so it is
  rounded and may overflow before \<^verbatim>\<open>toFixed\<close> sees it.
\<close>

definition computeROI :: "number \<Rightarrow> number \<Rightarrow> number option" where
  "computeROI r t =
     (if \<not> isFinite r then None
      else if \<not> isFinite t \<or> js_le t (Fin 0) then None
      else Some (number_toFixed2 (fdiv r t)))"

fun computePriorityWeight :: "priority \<Rightarrow> number" where
  "computePriorityWeight High = Fin 3"
| "computePriorityWeight Medium = Fin 2"
| "computePriorityWeight Low = Fin 1"

record derivedTask = task +
  roi :: "number option"
  priorityWeight :: number

definition withDerived :: "task \<Rightarrow> derivedTask" where
  "withDerived t =
     \<lparr> task_id = task_id t, title = title t, revenue = revenue t, timeTaken = timeTaken t,
       priority = priority t, status = status t, task_notes = task_notes t,
       createdAt = createdAt t, completedAt = completedAt t,
       roi = computeROI (revenue t) (timeTaken t),
       priorityWeight = computePriorityWeight (priority t) \<rparr>"

text \<open>
  The comparator of \<^verbatim>\<open>sortTasks\<close>. \<^verbatim>\<open>String.prototype.localeCompare\<close> belongs to the
  platform and depends on the locale: it is the argument \<open>localeCompare\<close>, which returns
  a negative number, zero or a positive number.
\<close>

definition compareTasks ::
  "(string \<Rightarrow> string \<Rightarrow> number) \<Rightarrow> derivedTask \<Rightarrow> derivedTask \<Rightarrow> number" where
  "compareTasks localeCompare a b =
     (let aROI = orElse (roi a) (Fin (- 1));
          bROI = orElse (roi b) (Fin (- 1))
      in if js_neq bROI aROI then fsub bROI aROI
         else if js_neq (priorityWeight b) (priorityWeight a)
              then fsub (priorityWeight b) (priorityWeight a)
         else localeCompare (title a) (title b))"

text \<open>
  \<^verbatim>\<open>Array.prototype.sort\<close> with a comparator. ECMAScript requires the sort to be stable
  and to read a comparator result that is NaN as \<open>+0\<close>; for a consistent comparator it
  fixes the result, which is the one of any stable sort, here insertion sort: an element
  moves behind the elements it compares greater than, and stays in front of the ones it
  ties with and that followed it. For an inconsistent comparator the order is left to the
  implementation, and the model does not speak for it.
\<close>

fun sort_insert :: "('a \<Rightarrow> 'a \<Rightarrow> number) \<Rightarrow> 'a \<Rightarrow> 'a list \<Rightarrow> 'a list" where
  "sort_insert cmp x [] = [x]"
| "sort_insert cmp x (y # ys) =
     (if js_gt (cmp x y) (Fin 0) then y # sort_insert cmp x ys else x # y # ys)"

definition array_sort :: "('a \<Rightarrow> 'a \<Rightarrow> number) \<Rightarrow> 'a list \<Rightarrow> 'a list" where
  "array_sort cmp xs = foldr (sort_insert cmp) xs []"

definition sortTasks :: "(string \<Rightarrow> string \<Rightarrow> number) \<Rightarrow> derivedTask list \<Rightarrow> derivedTask list" where
  "sortTasks localeCompare ts = array_sort (compareTasks localeCompare) ts"

text \<open>
  Arrays are objects: \<^verbatim>\<open>sort\<close> sorts the array it is called on in place and returns
  it. To say which array \<^verbatim>\<open>sortTasks\<close> writes to, arrays live in a store addressed
  by references (positions of the store). The spread \<^verbatim>\<open>[...tasks]\<close> allocates a new
  array with the elements of the argument; \<^verbatim>\<open>sort\<close> then overwrites that new array.
\<close>

type_synonym 'a arrays = "'a list list"

definition array_spread :: "nat \<Rightarrow> 'a arrays \<Rightarrow> nat \<times> 'a arrays" where
  "array_spread r h = (length h, h @ [h ! r])"

definition array_sort_in_place ::
  "('a \<Rightarrow> 'a \<Rightarrow> number) \<Rightarrow> nat \<Rightarrow> 'a arrays \<Rightarrow> nat \<times> 'a arrays" where
  "array_sort_in_place cmp r h = (r, h[r := array_sort cmp (h ! r)])"

definition sortTasks_ref ::
  "(string \<Rightarrow> string \<Rightarrow> number) \<Rightarrow> nat \<Rightarrow> derivedTask arrays \<Rightarrow> nat \<times> derivedTask arrays" where
  "sortTasks_ref localeCompare r h =
     (case array_spread r h of (c, h1) \<Rightarrow> array_sort_in_place (compareTasks localeCompare) c h1)"

text \<open>
  The order the specification describes, in its own words: descending by ROI with a
  missing ROI counted as \<open>-1\<close>, then descending by priority weight, then ascending by
  title in the order of \<open>localeCompare\<close>. \<open>spec_before a b\<close> says that \<open>a\<close> may stand
  in front of \<open>b\<close>.
\<close>

definition spec_before ::
  "(string \<Rightarrow> string \<Rightarrow> number) \<Rightarrow> derivedTask \<Rightarrow> derivedTask \<Rightarrow> bool" where
  "spec_before localeCompare a b =
     (let aROI = orElse (roi a) (Fin (- 1));
          bROI = orElse (roi b) (Fin (- 1))
      in js_lt bROI aROI
         \<or> (bROI = aROI
             \<and> (js_lt (priorityWeight b) (priorityWeight a)
                 \<or> (priorityWeight b = priorityWeight a
                     \<and> \<not> js_gt (localeCompare (title a) (title b)) (Fin 0)))))"

text \<open>
  A derived task whose ROI (or the \<open>-1\<close> that stands for a missing one) and priority
  weight are numbers: doubles or infinities, not NaN. Every task that \<^verbatim>\<open>withDerived\<close>
  returns is one.
\<close>

definition derived_ok :: "derivedTask \<Rightarrow> bool" where
  "derived_ok d = (is_number (orElse (roi d) (Fin (- 1))) \<and> is_number (priorityWeight d))"

text \<open>
  What the platform guarantees of \<open>localeCompare\<close>: it is a consistent comparator (a
  total preorder on strings). Only the sign of its result matters.
\<close>

definition consistent_comparator :: "('a \<Rightarrow> 'a \<Rightarrow> number) \<Rightarrow> bool" where
  "consistent_comparator cmp =
     ((\<forall>x y. js_gt (cmp x y) (Fin 0) \<longleftrightarrow> js_lt (cmp y x) (Fin 0))
      \<and> (\<forall>x y z. \<not> js_gt (cmp x y) (Fin 0) \<and> \<not> js_gt (cmp y z) (Fin 0)
                   \<longrightarrow> \<not> js_gt (cmp x z) (Fin 0)))"

text \<open>Comparison of strings by character code, a consistent comparator.\<close>

fun lexCompare :: "string \<Rightarrow> string \<Rightarrow> number" where
  "lexCompare [] [] = Fin 0"
| "lexCompare [] (y # ys) = Fin (- 1)"
| "lexCompare (x # xs) [] = Fin 1"
| "lexCompare (x # xs) (y # ys) =
     (if of_char x < (of_char y :: nat) then Fin (- 1)
      else if of_char y < (of_char x :: nat) then Fin 1
      else lexCompare xs ys)"

section \<open>Funnel\<close>

record funnelCounts =
  funnel_todo :: nat
  funnel_inProgress :: nat
  funnel_done :: nat
  conversionTodoToInProgress :: number
  conversionInProgressToDone :: number

text \<open>
  The counts are lengths of arrays, natural numbers below \<open>2^32\<close>, which binary64
  holds exactly; \<^verbatim>\<open>base ? ... : 0\<close> tests a count against zero.
\<close>

definition computeFunnel :: "task list \<Rightarrow> funnelCounts" where
  "computeFunnel ts =
     (let todo = length (filter (\<lambda>t. status t = Todo) ts);
          inProgress = length (filter (\<lambda>t. status t = InProgress) ts);
          done' = length (filter (\<lambda>t. status t = Done) ts);
          base = todo + inProgress + done'
      in \<lparr> funnel_todo = todo,
           funnel_inProgress = inProgress,
           funnel_done = done',
           conversionTodoToInProgress =
             (if base \<noteq> 0 then fdiv (Fin (of_nat (inProgress + done'))) (Fin (of_nat base))
              else Fin 0),
           conversionInProgressToDone =
             (if inProgress \<noteq> 0 then fdiv (Fin (of_nat done')) (Fin (of_nat inProgress))
              else Fin 0) \<rparr>)"

section \<open>Dates\<close>

text \<open>
  A \<^verbatim>\<open>Date\<close> object is its time value: the milliseconds since 1970-01-01T00:00:00Z, or
  NaN for an invalid date, which is \<open>None\<close>. The functions below are the abstract
  operations of the ECMAScript specification on time values (Day, YearFromTime,
  MonthFromTime, DateFromTime, WeekDay, MakeDay, MakeDate, TimeClip), over the integers.
\<close>

type_synonym date = "int option"

definition msPerDay :: int where
  "msPerDay = 86400000"

definition Day :: "int \<Rightarrow> int" where
  "Day t = t div msPerDay"

definition TimeWithinDay :: "int \<Rightarrow> int" where
  "TimeWithinDay t = t mod msPerDay"

definition DaysInYear :: "int \<Rightarrow> int" where
  "DaysInYear y =
     (if y mod 4 \<noteq> 0 then 365 else if y mod 100 \<noteq> 0 then 366
      else if y mod 400 \<noteq> 0 then 365 else 366)"

definition DayFromYear :: "int \<Rightarrow> int" where
  "DayFromYear y = 365 * (y - 1970) + (y - 1969) div 4 - (y - 1901) div 100 + (y - 1601) div 400"

text \<open>
  The year of a day number is the largest \<open>y\<close> with \<open>DayFromYear y \<le> d\<close>: the estimate
  from the mean length of a year is off by one year at most.
\<close>

definition YearFromDay :: "int \<Rightarrow> int" where
  "YearFromDay d =
     (let y = 1970 + (400 * d) div 146097
      in if d < DayFromYear y then y - 1
         else if DayFromYear (y + 1) \<le> d then y + 1
         else y)"

definition YearFromTime :: "int \<Rightarrow> int" where
  "YearFromTime t = YearFromDay (Day t)"

definition InLeapYear :: "int \<Rightarrow> bool" where
  "InLeapYear t = (DaysInYear (YearFromTime t) = 366)"

definition DayWithinYear :: "int \<Rightarrow> int" where
  "DayWithinYear t = Day t - DayFromYear (YearFromTime t)"

text \<open>
  The day within the year on which month \<open>m\<close> (0 to 11) begins; for \<open>m = 12\<close>, the
  length of the year.
\<close>

definition monthStart :: "int \<Rightarrow> bool \<Rightarrow> int" where
  "monthStart m leap =
     (let l = (if leap then 1 else 0)
      in if m = 0 then 0 else if m = 1 then 31 else if m = 2 then 59 + l
         else if m = 3 then 90 + l else if m = 4 then 120 + l else if m = 5 then 151 + l
         else if m = 6 then 181 + l else if m = 7 then 212 + l else if m = 8 then 243 + l
         else if m = 9 then 273 + l else if m = 10 then 304 + l
         else if m = 11 then 334 + l else 365 + l)"

definition MonthFromTime :: "int \<Rightarrow> int" where
  "MonthFromTime t =
     (let d = DayWithinYear t; leap = InLeapYear t
      in if d < monthStart 1 leap then 0 else if d < monthStart 2 leap then 1
         else if d < monthStart 3 leap then 2 else if d < monthStart 4 leap then 3
         else if d < monthStart 5 leap then 4 else if d < monthStart 6 leap then 5
         else if d < monthStart 7 leap then 6 else if d < monthStart 8 leap then 7
         else if d < monthStart 9 leap then 8 else if d < monthStart 10 leap then 9
         else if d < monthStart 11 leap then 10 else 11)"

definition DateFromTime :: "int \<Rightarrow> int" where
  "DateFromTime t = DayWithinYear t - monthStart (MonthFromTime t) (InLeapYear t) + 1"

text \<open>The day of the week, 0 for Sunday: 1970-01-01 was a Thursday.\<close>

definition WeekDay :: "int \<Rightarrow> int" where
  "WeekDay t = (Day t + 4) mod 7"

text \<open>
  \<open>MakeDay\<close> counts from the first day of the month, which may lie in another year when
  the month is out of range, and accepts any day of the month, also zero, negative or
  beyond the end of the month.
\<close>

definition MakeDay :: "int \<Rightarrow> int \<Rightarrow> int \<Rightarrow> int" where
  "MakeDay year month dt =
     (let ym = year + month div 12; mn = month mod 12
      in DayFromYear ym + monthStart mn (DaysInYear ym = 366) + dt - 1)"

definition MakeDate :: "int \<Rightarrow> int \<Rightarrow> int" where
  "MakeDate day time = day * msPerDay + time"

definition TimeClip :: "int \<Rightarrow> date" where
  "TimeClip t = (if 8640000000000000 < \<bar>t\<bar> then None else Some t)"

text \<open>
  \<^verbatim>\<open>Date.UTC(year, month, day)\<close>, and \<^verbatim>\<open>new Date\<close> of its result. A year from 0 to 99
  stands for 1900 to 1999. A NaN argument gives an invalid date.
\<close>

definition MakeFullYear :: "int \<Rightarrow> int" where
  "MakeFullYear y = (if 0 \<le> y \<and> y \<le> 99 then 1900 + y else y)"

definition Date_UTC :: "int option \<Rightarrow> int option \<Rightarrow> int option \<Rightarrow> date" where
  "Date_UTC year month day =
     (case year of None \<Rightarrow> None | Some y \<Rightarrow>
      case month of None \<Rightarrow> None | Some m \<Rightarrow>
      case day of None \<Rightarrow> None | Some dt \<Rightarrow>
        TimeClip (MakeDate (MakeDay (MakeFullYear y) m dt) 0))"

text \<open>The getters; each returns NaN (\<open>None\<close>) on an invalid date.\<close>

definition getUTCFullYear :: "date \<Rightarrow> int option" where
  "getUTCFullYear d = map_option YearFromTime d"

definition getUTCMonth :: "date \<Rightarrow> int option" where
  "getUTCMonth d = map_option MonthFromTime d"

definition getUTCDate :: "date \<Rightarrow> int option" where
  "getUTCDate d = map_option DateFromTime d"

definition getUTCDay :: "date \<Rightarrow> int option" where
  "getUTCDay d = map_option WeekDay d"

definition getTime :: "date \<Rightarrow> number" where
  "getTime d = (case d of None \<Rightarrow> NaN | Some t \<Rightarrow> Fin (of_int t))"

text \<open>\<^verbatim>\<open>setUTCDate\<close> returns the date with the day of the month replaced.\<close>

definition setUTCDate :: "date \<Rightarrow> int option \<Rightarrow> date" where
  "setUTCDate d day =
     (case d of None \<Rightarrow> None | Some t \<Rightarrow>
      case day of None \<Rightarrow> None | Some dt \<Rightarrow>
        TimeClip (MakeDate (MakeDay (YearFromTime t) (MonthFromTime t) dt) (TimeWithinDay t)))"

text \<open>
  \<^verbatim>\<open>getWeekNumber\<close>. The arithmetic on days of the month and of the week is on small
  integers, which binary64 holds exactly; the difference of the two time values and its
  quotient by the milliseconds of a week are operations on numbers.
\<close>

definition getWeekNumber :: "date \<Rightarrow> number" where
  "getWeekNumber d =
     (let target = Date_UTC (getUTCFullYear d) (getUTCMonth d) (getUTCDate d);
          dayNr = map_option (\<lambda>w. (w + 6) mod 7) (getUTCDay target);
          target' = setUTCDate target
                      (case getUTCDate target of None \<Rightarrow> None | Some a \<Rightarrow>
                       case dayNr of None \<Rightarrow> None | Some n \<Rightarrow> Some (a - n + 3));
          firstThursday = Date_UTC (getUTCFullYear target') (Some 0) (Some 4);
          diff = fsub (getTime target') (getTime firstThursday)
      in fadd (Fin 1) (math_round (fdiv diff (Fin (7 * 24 * 3600 * 1000)))))"

subsection \<open>The ISO week of the specification\<close>

text \<open>
  The ISO-8601 week in the words of the specification: weeks start on Monday, and week 1
  of a year is the week with the year's first Thursday. A week belongs to the year of its
  Thursday, and its number is the rank of that Thursday among the Thursdays of the year.
  Days are day numbers since 1970-01-01.
\<close>

definition spec_weekdayFromMonday :: "int \<Rightarrow> int" where
  "spec_weekdayFromMonday day = (day + 3) mod 7"

definition spec_thursdayOfWeek :: "int \<Rightarrow> int" where
  "spec_thursdayOfWeek day = day - spec_weekdayFromMonday day + 3"

definition spec_firstThursdayOfYear :: "int \<Rightarrow> int" where
  "spec_firstThursdayOfYear y =
     (let jan1 = DayFromYear y in jan1 + (3 - spec_weekdayFromMonday jan1) mod 7)"

definition spec_isoWeekNumber :: "int \<Rightarrow> int" where
  "spec_isoWeekNumber day =
     (let th = spec_thursdayOfWeek day
      in (th - spec_firstThursdayOfYear (YearFromDay th)) div 7 + 1)"

text \<open>The year an ISO week belongs to: the year of the week's Thursday.\<close>

definition spec_isoWeekYear :: "int \<Rightarrow> int" where
  "spec_isoWeekYear day = YearFromDay (spec_thursdayOfWeek day)"

subsection \<open>Numbers and dates as strings\<close>

definition digit_char :: "nat \<Rightarrow> char" where
  "digit_char n = ''0123456789'' ! (n mod 10)"

fun show_nat :: "nat \<Rightarrow> string" where
  "show_nat n = (if n < 10 then [digit_char n] else show_nat (n div 10) @ [digit_char (n mod 10)])"

definition show_int :: "int \<Rightarrow> string" where
  "show_int i = (if i < 0 then CHR ''-'' # show_nat (nat (- i)) else show_nat (nat i))"

text \<open>
  \<^verbatim>\<open>String(x)\<close> for the numbers a template literal receives here. An integer below
  \<open>10^21\<close> is written with its decimal digits. The digits of a finite number that is
  not an integer are not modelled (a question mark stands for the fraction): the only
  number the program prints is a week number, which is \<open>1 + Math.round(\<dots>)\<close>.
\<close>

fun number_toString :: "number \<Rightarrow> string" where
  "number_toString NaN = ''NaN''"
| "number_toString PInf = ''Infinity''"
| "number_toString NInf = ''-Infinity''"
| "number_toString (Fin q) =
     (if of_int \<lfloor>q\<rfloor> = q then show_int \<lfloor>q\<rfloor> else show_int \<lfloor>q\<rfloor> @ ''.?'')"

definition int_toString :: "int option \<Rightarrow> string" where
  "int_toString i = (case i of None \<Rightarrow> ''NaN'' | Some k \<Rightarrow> show_int k)"

text \<open>
  \<^verbatim>\<open>Date.parse\<close> belongs to the platform, and what it accepts beyond the ISO format is
  left to the implementation: in the functions below it is the argument \<open>parse\<close>, and
  the theorems hold for every \<open>parse\<close>. \<open>parseISO\<close> reads the format that
  \<^verbatim>\<open>toISOString\<close> writes for the years 0000 to 9999, \<^verbatim>\<open>YYYY-MM-DDTHH:mm:ss.sssZ\<close>,
  and takes every other string as invalid; the closed theorems use it on strings of that
  format.
\<close>

fun digit_val :: "char \<Rightarrow> nat option" where
  "digit_val c =
     (let n = (of_char c :: nat) in if 48 \<le> n \<and> n \<le> 57 then Some (n - 48) else None)"

fun digits_val :: "string \<Rightarrow> nat option" where
  "digits_val [] = Some 0"
| "digits_val (c # cs) =
     (case digit_val c of None \<Rightarrow> None | Some n \<Rightarrow>
      case digits_val cs of None \<Rightarrow> None | Some m \<Rightarrow> Some (n * 10 ^ length cs + m))"

definition parseISO :: "string \<Rightarrow> date" where
  "parseISO s =
     (if length s = 24 \<and> s ! 4 = CHR ''-'' \<and> s ! 7 = CHR ''-'' \<and> s ! 10 = CHR ''T''
         \<and> s ! 13 = CHR '':'' \<and> s ! 16 = CHR '':'' \<and> s ! 19 = CHR ''.'' \<and> s ! 23 = CHR ''Z''
      then
        (case digits_val (take 4 s) of None \<Rightarrow> None | Some y \<Rightarrow>
         case digits_val (take 2 (drop 5 s)) of None \<Rightarrow> None | Some mo \<Rightarrow>
         case digits_val (take 2 (drop 8 s)) of None \<Rightarrow> None | Some dd \<Rightarrow>
         case digits_val (take 2 (drop 11 s)) of None \<Rightarrow> None | Some h \<Rightarrow>
         case digits_val (take 2 (drop 14 s)) of None \<Rightarrow> None | Some mi \<Rightarrow>
         case digits_val (take 2 (drop 17 s)) of None \<Rightarrow> None | Some sec \<Rightarrow>
         case digits_val (take 3 (drop 20 s)) of None \<Rightarrow> None | Some ms \<Rightarrow>
           if 1 \<le> mo \<and> mo \<le> 12 \<and> 1 \<le> dd
              \<and> int dd \<le> monthStart (int mo) (DaysInYear (int y) = 366)
                           - monthStart (int mo - 1) (DaysInYear (int y) = 366)
              \<and> h \<le> 23 \<and> mi \<le> 59 \<and> sec \<le> 59
           then TimeClip (MakeDate (MakeDay (int y) (int mo - 1) (int dd))
                            (int h * 3600000 + int mi * 60000 + int sec * 1000 + int ms))
           else None)
      else None)"

section \<open>Analytics\<close>

text \<open>
  \<^verbatim>\<open>if (t.completedAt)\<close> tests an optional string: \<^verbatim>\<open>undefined\<close> and the empty
  string are falsy.
\<close>

definition truthy :: "string option \<Rightarrow> bool" where
  "truthy s = (case s of None \<Rightarrow> False | Some c \<Rightarrow> c \<noteq> [])"

subsection \<open>Velocity by priority\<close>

definition daysBetween :: "(string \<Rightarrow> date) \<Rightarrow> string \<Rightarrow> string \<Rightarrow> number" where
  "daysBetween parse aISO bISO =
     (let a = getTime (parse aISO);
          b = getTime (parse bISO)
      in math_max (Fin 0) (math_round (fdiv (fsub b a) (Fin (24 * 3600 * 1000)))))"

record velocity =
  avgDays :: number
  medianDays :: number

text \<open>The body of the \<^verbatim>\<open>forEach\<close> that fills the three groups, in the order of the tasks.\<close>

definition velocityStep ::
  "(string \<Rightarrow> date) \<Rightarrow> (priority \<Rightarrow> number list) \<Rightarrow> task \<Rightarrow> (priority \<Rightarrow> number list)" where
  "velocityStep parse groups t =
     (case completedAt t of
        None \<Rightarrow> groups
      | Some c \<Rightarrow>
          if c = [] then groups
          else groups (priority t := groups (priority t) @ [daysBetween parse (createdAt t) c]))"

definition computeVelocityByPriority :: "(string \<Rightarrow> date) \<Rightarrow> task list \<Rightarrow> priority \<Rightarrow> velocity" where
  "computeVelocityByPriority parse ts =
     (let groups = foldl (velocityStep parse) (\<lambda>p. []) ts
      in (\<lambda>p.
            let arr = array_sort (\<lambda>a b. fsub a b) (groups p);
                avg = (if length arr \<noteq> 0
                       then fdiv (foldl fadd (Fin 0) arr) (Fin (of_nat (length arr)))
                       else Fin 0);
                median = (if length arr \<noteq> 0 then arr ! (length arr div 2) else Fin 0)
            in \<lparr> avgDays = avg, medianDays = median \<rparr>))"

text \<open>
  The median of a list of numbers as statistics defines it: the middle element of the
  sorted list, and the mean of the two middle elements when the length is even.
\<close>

definition spec_median :: "rat list \<Rightarrow> rat" where
  "spec_median xs =
     (let s = sort xs; n = length s
      in if n = 0 then 0
         else if odd n then s ! (n div 2)
         else (s ! (n div 2 - 1) + s ! (n div 2)) / 2)"

text \<open>
  The day count of one task as the specification words it: the milliseconds between the
  two instants, in days, rounded to the nearest whole day (a half rounds up) and floored
  at 0.
\<close>

definition spec_wholeDays :: "int \<Rightarrow> int \<Rightarrow> int" where
  "spec_wholeDays ta tb = max 0 \<lfloor>(of_int (tb - ta) :: rat) / 86400000 + 1 / 2\<rfloor>"

text \<open>What a task adds to the group of priority \<open>p\<close>: nothing, or one day count.\<close>

definition completedDays :: "(string \<Rightarrow> date) \<Rightarrow> priority \<Rightarrow> task \<Rightarrow> number option" where
  "completedDays parse p t =
     (case completedAt t of
        None \<Rightarrow> None
      | Some c \<Rightarrow>
          if c = [] \<or> priority t \<noteq> p then None
          else Some (daysBetween parse (createdAt t) c))"

definition spec_completedDays :: "(string \<Rightarrow> date) \<Rightarrow> priority \<Rightarrow> task \<Rightarrow> int option" where
  "spec_completedDays parse p t =
     (case completedAt t of
        None \<Rightarrow> None
      | Some c \<Rightarrow>
          if c = [] \<or> priority t \<noteq> p then None
          else (case parse (createdAt t) of
                  None \<Rightarrow> None
                | Some ta \<Rightarrow>
                    (case parse c of
                       None \<Rightarrow> None
                     | Some tb \<Rightarrow> Some (spec_wholeDays ta tb))))"

text \<open>
  The day counts of the completed tasks of priority \<open>p\<close>, in the order of the tasks, as
  integers.
\<close>

definition spec_dayCounts :: "(string \<Rightarrow> date) \<Rightarrow> priority \<Rightarrow> task list \<Rightarrow> int list" where
  "spec_dayCounts parse p ts = List.map_filter (spec_completedDays parse p) ts"

text \<open>
  The dates of a completed task are valid and less than \<open>2^25\<close> days (some 91,000 years)
  apart. An invalid date makes the day count NaN.
\<close>

definition dates_in_range :: "(string \<Rightarrow> date) \<Rightarrow> task \<Rightarrow> bool" where
  "dates_in_range parse t =
     (case completedAt t of
        None \<Rightarrow> True
      | Some c \<Rightarrow>
          c = [] \<or>
          (case parse (createdAt t) of
             None \<Rightarrow> False
           | Some ta \<Rightarrow>
               (case parse c of
                  None \<Rightarrow> False
                | Some tb \<Rightarrow> \<bar>tb - ta\<bar> < 2 ^ 25 * 86400000)))"

subsection \<open>Throughput by week\<close>

text \<open>
  A \<^verbatim>\<open>Map\<close> keeps its keys in the order of their first insertion: it is a list of
  pairs. \<^verbatim>\<open>set\<close> on a key that is present replaces the value where it stands.
\<close>

fun map_set :: "('k \<times> 'v) list \<Rightarrow> 'k \<Rightarrow> 'v \<Rightarrow> ('k \<times> 'v) list" where
  "map_set [] k v = [(k, v)]"
| "map_set ((k', v') # m) k v = (if k' = k then (k, v) # m else (k', v') # map_set m k v)"

definition weekKey :: "(string \<Rightarrow> date) \<Rightarrow> string \<Rightarrow> string" where
  "weekKey parse s =
     (let d = parse s
      in int_toString (getUTCFullYear d) @ ''-W'' @ number_toString (getWeekNumber d))"

definition throughputStep ::
  "(string \<Rightarrow> date) \<Rightarrow> (string \<times> nat \<times> number) list \<Rightarrow> task \<Rightarrow> (string \<times> nat \<times> number) list" where
  "throughputStep parse m t =
     (case completedAt t of
        None \<Rightarrow> m
      | Some c \<Rightarrow>
          if c = [] then m
          else let week = weekKey parse c;
                   current = orElse (map_of m week) (0, Fin 0)
               in map_set m week (fst current + 1, fadd (snd current) (revenue t)))"

text \<open>The bucket a task falls into: the week key of its \<^verbatim>\<open>completedAt\<close>, if it has one.\<close>

definition completedWeek :: "(string \<Rightarrow> date) \<Rightarrow> task \<Rightarrow> string option" where
  "completedWeek parse t =
     (case completedAt t of
        None \<Rightarrow> None
      | Some c \<Rightarrow> if c = [] then None else Some (weekKey parse c))"

record throughput =
  throughput_week :: string
  throughput_count :: nat
  throughput_revenue :: number

definition computeThroughputByWeek ::
  "(string \<Rightarrow> date) \<Rightarrow> (string \<Rightarrow> string \<Rightarrow> number) \<Rightarrow> task list \<Rightarrow> throughput list" where
  "computeThroughputByWeek parse localeCompare ts =
     map (\<lambda>e. \<lparr> throughput_week = fst e, throughput_count = fst (snd e),
                 throughput_revenue = snd (snd e) \<rparr>)
       (array_sort (\<lambda>a b. localeCompare (fst a) (fst b))
          (foldl (throughputStep parse) [] ts))"

section \<open>Sample data\<close>

text \<open>Concrete tasks, payloads, patches and stores on which the theorems are instantiated.\<close>

definition taskA :: task where
  "taskA = \<lparr> task_id = ''a'', title = ''Alpha'', revenue = Fin 100, timeTaken = Fin 2,
             priority = High, status = Todo, task_notes = None,
             createdAt = ''2024-01-08T09:00:00.000Z'', completedAt = None \<rparr>"

definition taskB :: task where
  "taskB = \<lparr> task_id = ''b'', title = ''Beta'', revenue = Fin 40, timeTaken = Fin 4,
             priority = Low, status = InProgress, task_notes = Some ''call back'',
             createdAt = ''2024-01-09T10:30:00.000Z'', completedAt = None \<rparr>"

definition emptyPatch :: patch where
  "emptyPatch = \<lparr> patch_id = None, patch_title = None, patch_revenue = None,
                  patch_timeTaken = None, patch_priority = None, patch_status = None,
                  patch_notes = None, patch_createdAt = None, patch_completedAt = None \<rparr>"

definition payloadA :: payload where
  "payloadA = \<lparr> payload_id = Some ''a'', payload_title = ''Alpha'', payload_revenue = Fin 100,
                payload_timeTaken = Fin 2, payload_priority = High, payload_status = Done,
                payload_notes = None \<rparr>"

definition emptyStore :: store where
  "emptyStore = \<lparr> tasks = [], lastDeleted = None \<rparr>"

definition taskC :: task where
  "taskC = \<lparr> task_id = ''c'', title = ''Gamma'', revenue = Fin 250, timeTaken = Fin 5,
             priority = Medium, status = Done, task_notes = None,
             createdAt = ''2024-01-02T08:00:00.000Z'',
             completedAt = Some ''2024-01-08T00:00:00.000Z'' \<rparr>"

definition taskD :: task where
  "taskD = \<lparr> task_id = ''d'', title = ''Delta'', revenue = Fin 75, timeTaken = Fin 3,
             priority = Medium, status = Done, task_notes = None,
             createdAt = ''2024-02-27T08:00:00.000Z'',
             completedAt = Some ''2024-03-04T00:00:00.000Z'' \<rparr>"

definition taskE :: task where
  "taskE = \<lparr> task_id = ''e'', title = ''Epsilon'', revenue = Fin 60, timeTaken = Fin 6,
             priority = High, status = Done, task_notes = None,
             createdAt = ''2024-01-05T08:00:00.000Z'',
             completedAt = Some ''2024-01-06T08:00:00.000Z'' \<rparr>"

definition taskF :: task where
  "taskF = \<lparr> task_id = ''f'', title = ''Zeta'', revenue = Fin 90, timeTaken = Fin 9,
             priority = High, status = Done, task_notes = None,
             createdAt = ''2024-01-05T08:00:00.000Z'',
             completedAt = Some ''2024-01-08T08:00:00.000Z'' \<rparr>"

definition taskG :: task where
  "taskG = \<lparr> task_id = ''g'', title = ''Eta'', revenue = Fin 120, timeTaken = Fin 3,
             priority = Low, status = Done, task_notes = None,
             createdAt = ''2023-12-28T09:00:00.000Z'',
             completedAt = Some ''2024-01-01T00:00:00.000Z'' \<rparr>"

definition taskH :: task where
  "taskH = \<lparr> task_id = ''h'', title = ''Theta'', revenue = Fin 30, timeTaken = Fin 1,
             priority = Low, status = Done, task_notes = None,
             createdAt = ''2024-12-20T09:00:00.000Z'',
             completedAt = Some ''2024-12-30T00:00:00.000Z'' \<rparr>"

section \<open>Properties of the rounding\<close>

text \<open>The binary exponent: \<open>2 powi (ilog2 a) \<le> a < 2 powi (ilog2 a + 1)\<close>.\<close>

lemma ilog2_bounds:
  assumes "0 < a"
  shows "2 powi (ilog2 a) \<le> a" and "a < 2 powi (ilog2 a + 1)"
proof -
  obtain n d where qd: "quotient_of a = (n, d)" by (cases "quotient_of a")
  have d: "0 < d" using qd by (rule quotient_of_denom_pos)
  have a: "a = of_int n / of_int d" using qd by (rule quotient_of_div)
  from assms a d have n: "0 < n" by (simp add: zero_less_divide_iff)
  define bn where "bn = bitlen n"
  define bd where "bd = bitlen d"
  have bn1: "1 \<le> bn" and bd1: "1 \<le> bd"
    using n d bitlen_eq_zero_iff[of n] bitlen_eq_zero_iff[of d] bitlen_nonneg[of n] bitlen_nonneg[of d]
    unfolding bn_def bd_def by linarith+
  from bitlen_bounds[OF n] have "2 ^ nat (bn - 1) \<le> n" "n < 2 ^ nat bn" by (simp_all add: bn_def)
  then have "(of_int (2 ^ nat (bn - 1)) :: rat) \<le> of_int n" "(of_int n :: rat) < of_int (2 ^ nat bn)"
    by (simp_all only: of_int_le_iff of_int_less_iff)
  then have nb: "(2::rat) powi (bn - 1) \<le> of_int n" "(of_int n :: rat) < 2 powi bn"
    using bn1 by (simp_all add: power_int_nonneg_exp)
  from bitlen_bounds[OF d] have "2 ^ nat (bd - 1) \<le> d" "d < 2 ^ nat bd" by (simp_all add: bd_def)
  then have "(of_int (2 ^ nat (bd - 1)) :: rat) \<le> of_int d" "(of_int d :: rat) < of_int (2 ^ nat bd)"
    by (simp_all only: of_int_le_iff of_int_less_iff)
  then have db: "(2::rat) powi (bd - 1) \<le> of_int d" "(of_int d :: rat) < 2 powi bd"
    using bd1 by (simp_all add: power_int_nonneg_exp)
  have dpos: "(0::rat) < of_int d" using d by simp
  have lower: "(2::rat) powi (bn - bd - 1) \<le> a"
  proof -
    have "(2::rat) powi (bn - bd - 1) * of_int d \<le> 2 powi (bn - bd - 1) * 2 powi bd"
      using db(2) by (intro mult_left_mono) simp_all
    also have "\<dots> = 2 powi (bn - 1)"
      by (simp add: power_int_add [symmetric])
    also have "\<dots> \<le> of_int n" by (rule nb(1))
    finally show ?thesis using dpos by (simp add: a pos_le_divide_eq)
  qed
  have upper: "a < (2::rat) powi (bn - bd + 1)"
  proof -
    have "of_int n < (2::rat) powi bn" by (rule nb(2))
    also have "\<dots> = 2 powi (bn - bd + 1) * 2 powi (bd - 1)"
      by (simp add: power_int_add [symmetric])
    also have "\<dots> \<le> 2 powi (bn - bd + 1) * of_int d"
      using db(1) by (intro mult_left_mono) simp_all
    finally show ?thesis using dpos by (simp add: a pos_divide_less_eq)
  qed
  have il: "ilog2 a = (if 2 powi (bn - bd) \<le> a then bn - bd else bn - bd - 1)"
    by (simp add: ilog2_def qd Let_def bn_def bd_def)
  show "2 powi (ilog2 a) \<le> a"
    using il lower by (auto split: if_splits)
  show "a < 2 powi (ilog2 a + 1)"
    using il upper by (auto split: if_splits simp: not_le)
qed


lemma round_half_even_floor: "\<lfloor>x\<rfloor> \<le> round_half_even x" "round_half_even x \<le> \<lfloor>x\<rfloor> + 1"
  by (simp_all add: round_half_even_def Let_def)

lemma round_half_even_ge: "of_int j \<le> x \<Longrightarrow> j \<le> round_half_even x"
proof -
  assume "of_int j \<le> x"
  then have "j \<le> \<lfloor>x\<rfloor>" by (simp add: le_floor_iff)
  with round_half_even_floor(1)[of x] show ?thesis by linarith
qed

lemma round_half_even_le: "x \<le> of_int j \<Longrightarrow> round_half_even x \<le> j"
proof -
  assume x: "x \<le> of_int j"
  show ?thesis
  proof (cases "x = of_int j")
    case True
    then show ?thesis by (simp add: round_half_even_def)
  next
    case False
    with x have "x < of_int j" by simp
    then have "\<lfloor>x\<rfloor> < j" by (simp add: floor_less_iff)
    with round_half_even_floor(2)[of x] show ?thesis by linarith
  qed
qed

lemma round_half_even_of_int [simp]: "round_half_even (of_int j) = j"
  by (simp add: round_half_even_def)

lemma round_half_even_less: "x < of_int j - 1 / 2 \<Longrightarrow> round_half_even x < j"
proof -
  assume x: "x < of_int j - 1 / 2"
  let ?f = "\<lfloor>x\<rfloor>"
  have fx: "of_int ?f \<le> x" "x < of_int ?f + 1" by linarith+
  show ?thesis
  proof (cases "x - of_int ?f < 1 / 2")
    case True
    then have "round_half_even x = ?f" by (simp add: round_half_even_def)
    moreover have "of_int ?f < (of_int j :: rat)" using fx x by linarith
    ultimately show ?thesis by simp
  next
    case False
    then have "round_half_even x \<le> ?f + 1" by (simp add: round_half_even_def Let_def)
    moreover have "of_int (?f + 1) < (of_int j :: rat)" using False x by simp
    then have "?f + 1 < j" by (simp only: of_int_less_iff)
    ultimately show ?thesis by linarith
  qed
qed

lemma binade_ge: "- 1022 \<le> binade q"
  by (simp add: binade_def)

lemma ulp_pos [simp]: "0 < ulp q"
  by (simp add: ulp_def)

lemma ulp_nonneg [simp]: "0 \<le> ulp q"
  by (simp add: ulp_def)

lemma binade_minus [simp]: "binade (- q) = binade q"
  by (simp add: binade_def)

lemma ulp_minus [simp]: "ulp (- q) = ulp q"
  by (simp add: ulp_def)

lemma round_double_minus: "round_double (- q) = fneg (round_double q)"
  by (cases "q = 0"; cases "0 < q") (auto simp: round_double_def Let_def sgn_if)

lemma round_double_not_NaN [simp]: "round_double q \<noteq> NaN"
  by (simp add: round_double_def Let_def)

lemma round_double_pos:
  "0 < q \<Longrightarrow> round_double q =
     (if double_overflow \<le> of_int (round_half_even (q / ulp q)) * ulp q then PInf
      else Fin (of_int (round_half_even (q / ulp q)) * ulp q))"
  by (simp add: round_double_def Let_def)

lemma round_double_nonneg: "0 \<le> q \<Longrightarrow> js_le (Fin 0) (round_double q)"
proof (cases "q = 0")
  case True
  then show ?thesis by (simp add: round_double_def js_le_def)
next
  case False
  assume "0 \<le> q"
  with False have q: "0 < q" by simp
  have "of_int 0 \<le> q / ulp q" using q by (simp add: divide_nonneg_pos)
  then have "0 \<le> round_half_even (q / ulp q)" by (rule round_half_even_ge)
  then have "0 \<le> (of_int (round_half_even (q / ulp q)) :: rat) * ulp q"
    by (intro mult_nonneg_nonneg) simp_all
  then show ?thesis
    by (simp add: round_double_pos[OF q] js_le_def)
qed

lemma ulp_divides_pow:
  assumes "binade q \<le> k + 52"
  shows "2 powi k = of_int (2 ^ nat (k + 52 - binade q)) * ulp q"
proof -
  have "(2::rat) powi k = 2 powi (k + 52 - binade q) * 2 powi (binade q - 52)"
    by (simp add: power_int_add [symmetric])
  also have "(2::rat) powi (k + 52 - binade q) = 2 ^ nat (k + 52 - binade q)"
    using assms by (simp add: power_int_nonneg_exp)
  finally show ?thesis by (simp add: ulp_def)
qed

lemma pow2_less_iff: "(2::rat) powi m < 2 powi n \<longleftrightarrow> m < n"
proof
  assume l: "(2::rat) powi m < 2 powi n"
  show "m < n"
  proof (rule ccontr)
    assume "\<not> m < n"
    then have "n \<le> m" by simp
    then have "(2::rat) powi n \<le> 2 powi m" by (intro power_int_increasing) simp_all
    with l show False by simp
  qed
next
  assume "m < n"
  then show "(2::rat) powi m < 2 powi n" by (intro power_int_strict_increasing) simp_all
qed

lemma pow2_le_iff: "(2::rat) powi m \<le> 2 powi n \<longleftrightarrow> m \<le> n"
  using pow2_less_iff [of n m] by (auto simp: not_less [symmetric])

lemma binade_le:
  assumes "0 < q" "q < 2 powi k" "- 1022 \<le> k - 1"
  shows "binade q \<le> k - 1"
proof -
  have "2 powi (ilog2 q) \<le> q" using assms(1) by (rule ilog2_bounds)
  with assms(2) have "(2::rat) powi (ilog2 q) < 2 powi k" by simp
  then have "ilog2 q < k" by (simp only: pow2_less_iff)
  then show ?thesis using assms by (simp add: binade_def)
qed


lemma binade_le_of_le:
  assumes "0 < q" "q \<le> 2 powi k" "- 1022 \<le> k"
  shows "binade q \<le> k"
proof -
  have "2 powi (ilog2 q) \<le> q" using assms(1) by (rule ilog2_bounds)
  with assms(2) have "(2::rat) powi (ilog2 q) \<le> 2 powi k" by simp
  then have "ilog2 q \<le> k" by (simp only: pow2_le_iff)
  then show ?thesis using assms by (simp add: binade_def)
qed

lemma round_double_le_pow2:
  assumes q: "0 < q" "q \<le> 2 powi k" and k: "- 1022 \<le> k" "k < 1024"
  shows "js_le (round_double q) (Fin (2 powi k))"
proof -
  have b: "binade q \<le> k + 52" using binade_le_of_le[OF q k(1)] by simp
  define J :: int where "J = 2 ^ nat (k + 52 - binade q)"
  have pk: "2 powi k = of_int J * ulp q" unfolding J_def using b by (rule ulp_divides_pow)
  have "q / ulp q \<le> of_int J" using q(2) by (simp add: pk pos_divide_le_eq)
  then have "round_half_even (q / ulp q) \<le> J" by (rule round_half_even_le)
  then have "(of_int (round_half_even (q / ulp q)) :: rat) \<le> of_int J" by simp
  then have r: "of_int (round_half_even (q / ulp q)) * ulp q \<le> 2 powi k"
    unfolding pk by (intro mult_right_mono) simp_all
  have "(2::rat) powi k < 2 powi 1024" using k(2) by (simp only: pow2_less_iff)
  with r have "\<not> double_overflow \<le> of_int (round_half_even (q / ulp q)) * ulp q"
    by (simp add: double_overflow_def)
  with r show ?thesis by (simp add: round_double_pos[OF q(1)] js_le_def)
qed

lemma round_double_le_1: "0 \<le> q \<Longrightarrow> q \<le> 1 \<Longrightarrow> js_le (round_double q) (Fin 1)"
proof (cases "q = 0")
  case True
  then show ?thesis by (simp add: round_double_def js_le_def)
next
  case False
  assume "0 \<le> q" "q \<le> 1"
  with False round_double_le_pow2[of q 0] show ?thesis by simp
qed

lemma on_gridI: "x = of_int k * subnormal_spacing \<Longrightarrow> on_grid x"
  by (simp add: on_grid_def subnormal_spacing_def)

lemma on_gridE:
  assumes "on_grid x"
  obtains k where "x = of_int k * subnormal_spacing"
proof
  have "0 < subnormal_spacing" by (simp add: subnormal_spacing_def)
  then have "x = x / subnormal_spacing * subnormal_spacing" by simp
  also have "x / subnormal_spacing = of_int \<lfloor>x / subnormal_spacing\<rfloor>"
    using assms unfolding on_grid_def by (rule sym)
  finally show "x = of_int \<lfloor>x / subnormal_spacing\<rfloor> * subnormal_spacing" .
qed

lemma ulp_on_grid: "ulp q = of_int (2 ^ nat (binade q + 1022)) * subnormal_spacing"
proof -
  have "(2::rat) powi ((binade q + 1022) + (- 1074)) = 2 powi (binade q + 1022) * 2 powi (- 1074)"
    by (rule power_int_add) simp
  then have "(2::rat) powi (binade q - 52) = 2 powi (binade q + 1022) * 2 powi (- 1074)"
    by simp
  also have "(2::rat) powi (binade q + 1022) = 2 ^ nat (binade q + 1022)"
    using binade_ge[of q] by (simp add: power_int_nonneg_exp)
  finally show ?thesis by (simp add: ulp_def subnormal_spacing_def)
qed

lemma on_grid_ulp_multiple: "on_grid (of_int m * ulp q)" "on_grid (- (of_int m * ulp q))"
proof -
  let ?j = "m * 2 ^ nat (binade q + 1022)"
  have m: "of_int m * ulp q = of_int ?j * subnormal_spacing"
    by (subst ulp_on_grid) simp
  then show "on_grid (of_int m * ulp q)" by (rule on_gridI)
  show "on_grid (- (of_int m * ulp q))"
    by (rule on_gridI [where k = "- ?j"]) (simp add: m)
qed

lemma on_grid_0 [simp]: "on_grid 0"
  by (rule on_gridI [where k = 0]) simp

lemma round_double_is_number: "is_number (round_double q)"
  by (simp add: round_double_def Let_def sgn_if on_grid_ulp_multiple)

lemma ulp_le:
  assumes "0 < q" "on_grid q"
  shows "ulp q \<le> q"
proof (cases "- 1022 \<le> ilog2 q")
  case True
  then have "ulp q = 2 powi (ilog2 q - 52)" using assms(1) by (simp add: ulp_def binade_def)
  also have "\<dots> \<le> 2 powi (ilog2 q)" by (simp add: pow2_le_iff)
  also have "\<dots> \<le> q" using assms(1) by (rule ilog2_bounds)
  finally show ?thesis .
next
  case False
  then have u: "ulp q = subnormal_spacing"
    using assms(1) by (simp add: ulp_def binade_def subnormal_spacing_def)
  from assms(2) obtain k where k: "q = of_int k * subnormal_spacing" by (rule on_gridE)
  have s: "0 < subnormal_spacing" by (simp add: subnormal_spacing_def)
  with assms(1) k have "0 < (of_int k :: rat)" by (simp add: zero_less_mult_iff)
  then have "1 \<le> k" by simp
  then have "(1::rat) \<le> of_int k" by simp
  then have "1 * subnormal_spacing \<le> of_int k * subnormal_spacing"
    using s by (intro mult_right_mono) simp_all
  then show ?thesis unfolding u by (simp add: k)
qed

lemma round_double_pos_sign:
  assumes "0 < q" "on_grid q"
  shows "js_lt (Fin 0) (round_double q)"
proof -
  have "of_int 1 \<le> q / ulp q" using ulp_le[OF assms] by (simp add: pos_le_divide_eq)
  then have "1 \<le> round_half_even (q / ulp q)" by (rule round_half_even_ge)
  then have "0 < (of_int (round_half_even (q / ulp q)) :: rat) * ulp q"
    by (intro mult_pos_pos) simp_all
  then show ?thesis by (simp add: round_double_pos[OF assms(1)])
qed

lemma round_double_neg_sign:
  assumes "q < 0" "on_grid q"
  shows "js_lt (round_double q) (Fin 0)"
proof -
  from assms(2) obtain k where "q = of_int k * subnormal_spacing" by (rule on_gridE)
  then have "- q = of_int (- k) * subnormal_spacing" by simp
  then have "on_grid (- q)" by (rule on_gridI)
  with assms(1) have "js_lt (Fin 0) (round_double (- q))" by (intro round_double_pos_sign) simp_all
  then show ?thesis
    by (cases "round_double q") (simp_all add: round_double_minus)
qed

lemma round_double_exact:
  assumes "0 < q" "q = of_int J * ulp q" "q < double_overflow"
  shows "round_double q = Fin q"
proof -
  have "ulp q \<noteq> 0" by (simp add: ulp_def)
  then have "of_int J * ulp q / ulp q = (of_int J :: rat)" by simp
  with assms(2) have "q / ulp q = of_int J" by metis
  then have "of_int (round_half_even (q / ulp q)) * ulp q = q" using assms(2) by simp
  with assms(3) show ?thesis by (simp add: round_double_pos[OF assms(1)])
qed

lemma round_double_of_int_pos:
  assumes "0 < k" "k \<le> 2 ^ 53"
  shows "round_double (of_int k) = Fin (of_int k)"
proof -
  let ?q = "of_int k :: rat"
  have q: "0 < ?q" using assms by simp
  have q1: "(2::rat) powi 0 \<le> ?q" using assms by simp
  have "?q < 2 powi (ilog2 ?q + 1)" using q by (rule ilog2_bounds)
  with q1 have "(2::rat) powi 0 < 2 powi (ilog2 ?q + 1)" by linarith
  then have "0 < ilog2 ?q + 1" by (rule pow2_less_iff [THEN iffD1])
  then have lo: "0 \<le> ilog2 ?q" by simp
  have "\<bar>?q\<bar> = ?q" using assms(1) by simp
  then have "binade ?q = max (ilog2 ?q) (- 1022)" unfolding binade_def by (rule arg_cong)
  with lo have b: "binade ?q = ilog2 ?q" by simp
  have "?q \<le> of_int (2 ^ 53)" using assms(2) by (simp only: of_int_le_iff)
  also have "(of_int (2 ^ 53) :: rat) = 2 powi 53" by simp
  finally have q53: "?q \<le> 2 powi 53" .
  from binade_le_of_le[OF q this] have hi: "binade ?q \<le> 53" by simp
  have ov: "?q < double_overflow"
  proof -
    note q53
    also have "(2::rat) powi 53 < 2 powi 1024" by (simp only: pow2_less_iff)
    finally show ?thesis by (simp add: double_overflow_def)
  qed
  show ?thesis
  proof (cases "binade ?q \<le> 52")
    case True
    have "(1::rat) = 2 powi 0" by simp
    also have "\<dots> = of_int (2 ^ nat (0 + 52 - binade ?q)) * ulp ?q"
      using True by (intro ulp_divides_pow) simp
    finally have "?q = of_int (k * 2 ^ nat (52 - binade ?q)) * ulp ?q"
      by (simp add: mult.assoc)
    from round_double_exact[OF q this ov] show ?thesis .
  next
    case False
    with hi have b53: "binade ?q = 53" by simp
    then have "2 powi 53 \<le> ?q" using b ilog2_bounds(1)[OF q] by simp
    with q53 have qv: "?q = 2 powi 53" by simp
    have "ulp ?q = 2" using b53 by (simp add: ulp_def)
    then have "?q = of_int (2 ^ 52) * ulp ?q" by (simp add: qv)
    from round_double_exact[OF q this ov] show ?thesis .
  qed
qed

lemma round_double_of_int:
  assumes "\<bar>k\<bar> \<le> 2 ^ 53"
  shows "round_double (of_int k) = Fin (of_int k)"
proof -
  consider "k = 0" | "0 < k" | "k < 0" by linarith
  then show ?thesis
  proof cases
    case 1
    then show ?thesis by (simp add: round_double_def)
  next
    case 2
    with assms show ?thesis by (intro round_double_of_int_pos) simp_all
  next
    case 3
    with assms have "round_double (of_int (- k)) = Fin (of_int (- k))"
      by (intro round_double_of_int_pos) simp_all
    then have "fneg (round_double (of_int k)) = Fin (- of_int k)"
      by (simp add: round_double_minus)
    then show ?thesis by (cases "round_double (of_int k :: rat)") simp_all
  qed
qed

subsection \<open>Bounds of the rounded value\<close>

lemma round_double_finite:
  assumes q: "0 < q" "q \<le> 2 powi j" and j: "- 1022 \<le> j" "j < 1024"
  shows "round_double q = Fin (rounded q)"
proof -
  from round_double_le_pow2[OF q j] have "round_double q \<noteq> PInf" by (auto simp: js_le_def)
  then show ?thesis unfolding rounded_def by (simp add: round_double_pos[OF q(1)] split: if_splits)
qed

lemma rounded_ge:
  assumes "0 < q" "binade q \<le> k + 52" "of_int lo * 2 powi k \<le> q"
  shows "of_int lo * 2 powi k \<le> rounded q"
proof -
  define J :: int where "J = 2 ^ nat (k + 52 - binade q)"
  have pk: "2 powi k = of_int J * ulp q" unfolding J_def using assms(2) by (rule ulp_divides_pow)
  have "of_int (lo * J) * ulp q \<le> q" using assms(3) by (simp add: pk mult.assoc)
  then have "of_int (lo * J) \<le> q / ulp q" by (simp add: pos_le_divide_eq)
  then have "lo * J \<le> round_half_even (q / ulp q)" by (rule round_half_even_ge)
  then have "(of_int (lo * J) :: rat) \<le> of_int (round_half_even (q / ulp q))"
    by (simp only: of_int_le_iff)
  then have "of_int (lo * J) * ulp q \<le> rounded q"
    unfolding rounded_def by (intro mult_right_mono) simp_all
  then show ?thesis by (simp add: pk mult.assoc)
qed

lemma rounded_le:
  assumes "0 < q" "binade q \<le> k + 52" "q \<le> of_int hi * 2 powi k"
  shows "rounded q \<le> of_int hi * 2 powi k"
proof -
  define J :: int where "J = 2 ^ nat (k + 52 - binade q)"
  have pk: "2 powi k = of_int J * ulp q" unfolding J_def using assms(2) by (rule ulp_divides_pow)
  have "q \<le> of_int (hi * J) * ulp q" using assms(3) by (simp add: pk mult.assoc)
  then have "q / ulp q \<le> of_int (hi * J)" by (simp add: pos_divide_le_eq)
  then have "round_half_even (q / ulp q) \<le> hi * J" by (rule round_half_even_le)
  then have "(of_int (round_half_even (q / ulp q)) :: rat) \<le> of_int (hi * J)"
    by (simp only: of_int_le_iff)
  then have "rounded q \<le> of_int (hi * J) * ulp q"
    unfolding rounded_def by (intro mult_right_mono) simp_all
  then show ?thesis by (simp add: pk mult.assoc)
qed

lemma fsub_of_int:
  assumes "\<bar>a - b\<bar> \<le> 2 ^ 53"
  shows "fsub (Fin (of_int a)) (Fin (of_int b)) = Fin (of_int (a - b))"
proof -
  have "fsub (Fin (of_int a)) (Fin (of_int b)) = round_double (of_int (a - b))"
    by (simp add: fsub_def)
  with round_double_of_int[OF assms] show ?thesis by simp
qed

lemma fadd_of_int:
  assumes "\<bar>a + b\<bar> \<le> 2 ^ 53"
  shows "fadd (Fin (of_int a)) (Fin (of_int b)) = Fin (of_int (a + b))"
proof -
  have "fadd (Fin (of_int a)) (Fin (of_int b)) = round_double (of_int (a + b))" by simp
  with round_double_of_int[OF assms] show ?thesis by simp
qed

text \<open>A quotient by seven that is within three sevenths of an integer rounds to that integer.\<close>

lemma round_sevenths_pos:
  assumes n: "0 < n" "n = 7 * k + d" "\<bar>d\<bar> \<le> 3" "n \<le> 2 ^ 40"
  shows "\<exists>r. round_double (of_int n / 7) = Fin r \<and> of_int k - 7 / 16 \<le> r \<and> r \<le> of_int k + 7 / 16"
proof -
  let ?q = "of_int n / 7 :: rat"
  have q: "0 < ?q" using n(1) by simp
  have "?q \<le> of_int n" using n(1) by simp
  also have "(of_int n :: rat) \<le> of_int (2 ^ 40)" using n(4) by (simp only: of_int_le_iff)
  also have "(of_int (2 ^ 40) :: rat) = 2 powi 40" by simp
  finally have q40: "?q \<le> 2 powi 40" .
  have b: "binade ?q \<le> - 4 + 52" using binade_le_of_le[OF q q40] by simp
  have fin: "round_double ?q = Fin (rounded ?q)"
    using q q40 by (rule round_double_finite) simp_all
  have qv: "?q = of_int k + of_int d / 7" by (simp add: n(2))
  from n(3) have "- 3 \<le> d" "d \<le> 3" by simp_all
  then have "(of_int (- 3) :: rat) \<le> of_int d" "(of_int d :: rat) \<le> of_int 3"
    by (simp_all only: of_int_le_iff)
  then have dl: "- 3 \<le> (of_int d :: rat)" "(of_int d :: rat) \<le> 3" by simp_all
  have p4: "(2::rat) powi (- 4) = 1 / 16" by simp
  have "of_int (16 * k - 7) * 2 powi (- 4) \<le> ?q" unfolding p4 qv using dl by simp
  from rounded_ge[OF q b this] have lo: "of_int k - 7 / 16 \<le> rounded ?q"
    unfolding p4 by simp
  have "?q \<le> of_int (16 * k + 7) * 2 powi (- 4)" unfolding p4 qv using dl by simp
  from rounded_le[OF q b this] have hi: "rounded ?q \<le> of_int k + 7 / 16"
    unfolding p4 by simp
  from fin lo hi show ?thesis by blast
qed

lemma round_sevenths:
  assumes n: "n = 7 * k + d" "\<bar>d\<bar> \<le> 3" "\<bar>n\<bar> \<le> 2 ^ 40"
  shows "math_round (round_double (of_int n / 7)) = Fin (of_int k)"
proof -
  have "\<exists>r. round_double (of_int n / 7) = Fin r \<and> of_int k - 7 / 16 \<le> r \<and> r \<le> of_int k + 7 / 16"
  proof -
    consider "n = 0" | "0 < n" | "n < 0" by linarith
    then show ?thesis
    proof cases
      case 1
      from n(2) have "- 3 \<le> d" "d \<le> 3" by simp_all
      with 1 n(1) have "k = 0" by linarith
      with 1 show ?thesis by (simp add: round_double_def)
    next
      case 2
      with n show ?thesis by (intro round_sevenths_pos[where d = d]) simp_all
    next
      case 3
      have "\<exists>r. round_double (of_int (- n) / 7) = Fin r \<and> of_int (- k) - 7 / 16 \<le> r
               \<and> r \<le> of_int (- k) + 7 / 16"
        using 3 n by (intro round_sevenths_pos[where d = "- d"]) simp_all
      then obtain r where r: "round_double (of_int (- n) / 7) = Fin r"
        "of_int (- k) - 7 / 16 \<le> r" "r \<le> of_int (- k) + 7 / 16" by blast
      have "round_double (- (of_int n / 7)) = fneg (round_double (of_int n / 7))"
        by (rule round_double_minus)
      with r(1) have "fneg (round_double (of_int n / 7)) = Fin r" by simp
      then have "round_double (of_int n / 7) = Fin (- r)"
        by (cases "round_double (of_int n / 7 :: rat)") simp_all
      then show ?thesis using r(2,3) by (intro exI[of _ "- r"]) simp
    qed
  qed
  then obtain r where r: "round_double (of_int n / 7) = Fin r"
    "of_int k - 7 / 16 \<le> r" "r \<le> of_int k + 7 / 16" by blast
  have "\<lfloor>r + 1 / 2\<rfloor> = k" using r(2,3) by (intro floor_unique) simp_all
  with r(1) show ?thesis by simp
qed

section \<open>Properties of the store\<close>


lemma filter_absent: "i \<notin> task_id ` set ts \<Longrightarrow> filter (\<lambda>t. task_id t \<noteq> i) ts = ts"
  by (induction ts) auto

lemma find_absent: "i \<notin> task_id ` set ts \<Longrightarrow> find (\<lambda>t. task_id t = i) ts = None"
  by (induction ts) auto

lemma find_present:
  "i \<in> task_id ` set ts \<Longrightarrow> \<exists>t. find (\<lambda>t. task_id t = i) ts = Some t \<and> t \<in> set ts \<and> task_id t = i"
  by (induction ts) auto

lemma filter_distinct_remove1:
  "distinct (map task_id ts) \<Longrightarrow> find (\<lambda>t. task_id t = i) ts = Some t
     \<Longrightarrow> filter (\<lambda>t. task_id t \<noteq> i) ts = remove1 t ts"
proof (induction ts)
  case Nil
  then show ?case by simp
next
  case (Cons a ts)
  show ?case
  proof (cases "task_id a = i")
    case True
    with Cons.prems have "t = a" and "i \<notin> task_id ` set ts" by auto
    then show ?thesis using True by (simp add: filter_absent)
  next
    case False
    with Cons.prems have f: "find (\<lambda>t. task_id t = i) ts = Some t" by simp
    then have "task_id t = i" by (induction ts) (auto split: if_splits)
    with False have "t \<noteq> a" by auto
    with Cons False f show ?thesis by simp
  qed
qed

text \<open>
  Claim C4 says that \<^verbatim>\<open>deleteTask\<close> with an id that is not in the list leaves the
  last-deleted slot unchanged. It does not: \<^verbatim>\<open>prev.find(...) || null\<close> is
  \<^verbatim>\<open>null\<close> then, and \<^verbatim>\<open>setLastDeleted\<close> stores it. With a deletion pending and
  an unknown id, the slot is emptied.
\<close>

theorem deleteTask_unknown_id_clears_slot:
  "lastDeleted (deleteTask ''zz'' \<lparr> tasks = [], lastDeleted = Some taskA \<rparr>)
     \<noteq> lastDeleted \<lparr> tasks = [], lastDeleted = Some taskA \<rparr>"
  by (simp add: deleteTask_def)

text \<open>
  Claim C4, as the code has it. For an id that no task of the list carries,
  \<^verbatim>\<open>deleteTask\<close> leaves the list as it is and sets the last-deleted slot to
  \<^verbatim>\<open>null\<close>. For an id that is in the list, the slot receives the first task with that
  id, whatever it held before, and the list loses every task with that id; when the ids
  of the list are distinct that is exactly the captured task.
\<close>

theorem deleteTask_effect:
  "(i \<notin> task_id ` set (tasks s) \<longrightarrow>
       tasks (deleteTask i s) = tasks s \<and> lastDeleted (deleteTask i s) = None)
   \<and> (i \<in> task_id ` set (tasks s) \<longrightarrow>
       (\<exists>t. t \<in> set (tasks s) \<and> task_id t = i
            \<and> find (\<lambda>t. task_id t = i) (tasks s) = Some t
            \<and> lastDeleted (deleteTask i s) = Some t
            \<and> tasks (deleteTask i s) = filter (\<lambda>t. task_id t \<noteq> i) (tasks s)
            \<and> i \<notin> task_id ` set (tasks (deleteTask i s))
            \<and> (distinct (map task_id (tasks s)) \<longrightarrow> tasks (deleteTask i s) = remove1 t (tasks s))))"
proof (intro conjI impI)
  assume "i \<notin> task_id ` set (tasks s)"
  then show "tasks (deleteTask i s) = tasks s"
    by (simp add: deleteTask_def Let_def filter_absent)
next
  assume "i \<notin> task_id ` set (tasks s)"
  then show "lastDeleted (deleteTask i s) = None"
    by (simp add: deleteTask_def Let_def find_absent)
next
  assume "i \<in> task_id ` set (tasks s)"
  then obtain t where t: "find (\<lambda>t. task_id t = i) (tasks s) = Some t" "t \<in> set (tasks s)" "task_id t = i"
    using find_present by blast
  have "distinct (map task_id (tasks s)) \<longrightarrow> tasks (deleteTask i s) = remove1 t (tasks s)"
    using t(1) by (simp add: deleteTask_def Let_def filter_distinct_remove1)
  moreover have "i \<notin> task_id ` set (tasks (deleteTask i s))"
    by (auto simp: deleteTask_def Let_def)
  ultimately show "\<exists>t. t \<in> set (tasks s) \<and> task_id t = i
            \<and> find (\<lambda>t. task_id t = i) (tasks s) = Some t
            \<and> lastDeleted (deleteTask i s) = Some t
            \<and> tasks (deleteTask i s) = filter (\<lambda>t. task_id t \<noteq> i) (tasks s)
            \<and> i \<notin> task_id ` set (tasks (deleteTask i s))
            \<and> (distinct (map task_id (tasks s)) \<longrightarrow> tasks (deleteTask i s) = remove1 t (tasks s))"
    using t by (intro exI[of _ t]) (simp add: deleteTask_def Let_def)
qed

text \<open>
  The theorem at a store of two tasks with a deletion pending: once for an unknown id,
  once for the id of the first task.
\<close>

theorem deleteTask_effect_witness:
  "tasks (deleteTask ''zz'' \<lparr> tasks = [taskA, taskB], lastDeleted = Some taskB \<rparr>) = [taskA, taskB]
   \<and> lastDeleted (deleteTask ''zz'' \<lparr> tasks = [taskA, taskB], lastDeleted = Some taskB \<rparr>) = None
   \<and> lastDeleted (deleteTask ''a'' \<lparr> tasks = [taskA, taskB], lastDeleted = Some taskB \<rparr>) = Some taskA
   \<and> tasks (deleteTask ''a'' \<lparr> tasks = [taskA, taskB], lastDeleted = Some taskB \<rparr>) = [taskB]"
proof -
  let ?s = "\<lparr> tasks = [taskA, taskB], lastDeleted = Some taskB \<rparr>"
  have absent: "''zz'' \<notin> task_id ` set (tasks ?s)" by (simp add: taskA_def taskB_def)
  have present: "''a'' \<in> task_id ` set (tasks ?s)" by (simp add: taskA_def taskB_def)
  have dist: "distinct (map task_id (tasks ?s))" by (simp add: taskA_def taskB_def)
  have f: "find (\<lambda>t. task_id t = ''a'') (tasks ?s) = Some taskA" by (simp add: taskA_def)
  from deleteTask_effect [of "''zz''" ?s] absent
  have 1: "tasks (deleteTask ''zz'' ?s) = tasks ?s \<and> lastDeleted (deleteTask ''zz'' ?s) = None"
    by blast
  from deleteTask_effect [of "''a''" ?s] present dist f
  have 2: "lastDeleted (deleteTask ''a'' ?s) = Some taskA
           \<and> tasks (deleteTask ''a'' ?s) = remove1 taskA (tasks ?s)"
    by auto
  from 1 2 show ?thesis by simp
qed


text \<open>
  Claim C10: \<^verbatim>\<open>updateTask\<close> keeps the length of the list and every position; a task
  whose id differs from the given one is returned as it was, a task with the given id is
  replaced by its patched copy; the last-deleted slot is not touched.
\<close>

theorem updateTask_frame:
  "length (tasks (updateTask i p now s)) = length (tasks s)
   \<and> lastDeleted (updateTask i p now s) = lastDeleted s
   \<and> (\<forall>k < length (tasks s).
         (task_id (tasks s ! k) \<noteq> i \<longrightarrow> tasks (updateTask i p now s) ! k = tasks s ! k)
       \<and> (task_id (tasks s ! k) = i \<longrightarrow>
            tasks (updateTask i p now s) ! k = applyPatch p now (tasks s ! k)))"
  by (simp add: updateTask_def)

text \<open>
  The theorem at a store of two tasks, patching the title of the second.
\<close>

theorem updateTask_frame_witness:
  "length (tasks (updateTask ''b'' (emptyPatch\<lparr> patch_title := Some ''Gamma'' \<rparr>) ''2024-02-01T08:00:00.000Z''
            \<lparr> tasks = [taskA, taskB], lastDeleted = None \<rparr>)) = 2
   \<and> tasks (updateTask ''b'' (emptyPatch\<lparr> patch_title := Some ''Gamma'' \<rparr>) ''2024-02-01T08:00:00.000Z''
            \<lparr> tasks = [taskA, taskB], lastDeleted = None \<rparr>) ! 0 = taskA
   \<and> tasks (updateTask ''b'' (emptyPatch\<lparr> patch_title := Some ''Gamma'' \<rparr>) ''2024-02-01T08:00:00.000Z''
            \<lparr> tasks = [taskA, taskB], lastDeleted = None \<rparr>) ! 1 = taskB\<lparr> title := ''Gamma'' \<rparr>"
proof -
  let ?p = "emptyPatch\<lparr> patch_title := Some ''Gamma'' \<rparr>"
  let ?s = "\<lparr> tasks = [taskA, taskB], lastDeleted = None \<rparr>"
  let ?s' = "updateTask ''b'' ?p ''2024-02-01T08:00:00.000Z'' ?s"
  note fr = updateTask_frame [of "''b''" ?p "''2024-02-01T08:00:00.000Z''" ?s]
  have len: "length (tasks ?s') = 2" using fr by simp
  have k0: "tasks ?s' ! 0 = taskA"
    using fr by (simp add: taskA_def)
  have "tasks ?s' ! 1 = applyPatch ?p ''2024-02-01T08:00:00.000Z'' taskB"
    using fr by (simp add: taskB_def)
  then have k1: "tasks ?s' ! 1 = taskB\<lparr> title := ''Gamma'' \<rparr>"
    by (simp add: applyPatch_def emptyPatch_def orElse_def taskB_def)
  from len k0 k1 show ?thesis by blast
qed




text \<open>
  The render matters. An \<^verbatim>\<open>undoDelete\<close> called in the same event as the deletion, before
  the component has rendered again, is the callback of the render before the deletion: it
  has seen an empty slot and does nothing, and the deletion stays pending.
\<close>

lemma undoDelete_before_render:
  "deleteTask ''a'' \<lparr> tasks = [taskA, taskB], lastDeleted = None \<rparr>
     = \<lparr> tasks = [taskB], lastDeleted = Some taskA \<rparr>
   \<and> undoDelete (lastDeleted \<lparr> tasks = [taskA, taskB], lastDeleted = None \<rparr>)
        (deleteTask ''a'' \<lparr> tasks = [taskA, taskB], lastDeleted = None \<rparr>)
     = \<lparr> tasks = [taskB], lastDeleted = Some taskA \<rparr>"
  by (simp add: deleteTask_def undoDelete_def taskA_def taskB_def)

text \<open>
  Claim C6 says that \<^verbatim>\<open>completedAt\<close> is set exactly once and preserved by every later
  update. A task created as Done, put back to Todo and moved to Done again has its
  \<^verbatim>\<open>completedAt\<close> replaced by the time of the second transition.
\<close>

theorem completedAt_restamped_on_reopen:
  "map completedAt (tasks (addTask payloadA ''2024-01-08T09:00:00.000Z'' ''u-1'' emptyStore))
     = [Some ''2024-01-08T09:00:00.000Z'']
   \<and> map completedAt
        (tasks (updateTask ''a'' (emptyPatch\<lparr> patch_status := Some Done \<rparr>) ''2024-03-04T12:00:00.000Z''
                 (updateTask ''a'' (emptyPatch\<lparr> patch_status := Some Todo \<rparr>) ''2024-02-01T08:00:00.000Z''
                   (addTask payloadA ''2024-01-08T09:00:00.000Z'' ''u-1'' emptyStore))))
     = [Some ''2024-03-04T12:00:00.000Z'']"
  by (simp add: addTask_def updateTask_def applyPatch_def payloadA_def emptyPatch_def
      emptyStore_def orElse_def)

text \<open>
  Claim C6, as the code has it. A task is created with \<^verbatim>\<open>completedAt\<close> equal to the
  creation time if its initial status is Done, and without one otherwise. An update that
  takes a task from a status other than Done into Done sets \<^verbatim>\<open>completedAt\<close> to the
  current time, at every such transition; any other update leaves \<^verbatim>\<open>completedAt\<close>
  as it was (so it is not overwritten while the task is already Done), and no update
  clears a \<^verbatim>\<open>completedAt\<close> that is set.
\<close>

theorem completedAt_rule:
  "completedAt (last (tasks (addTask pl now uuid s)))
     = (if payload_status pl = Done then Some now else None)
   \<and> (\<forall>k < length (tasks s).
        (status (tasks s ! k) \<noteq> Done \<and> status (tasks (updateTask i p now s) ! k) = Done
           \<longrightarrow> completedAt (tasks (updateTask i p now s) ! k) = Some now)
      \<and> (\<not> (status (tasks s ! k) \<noteq> Done \<and> status (tasks (updateTask i p now s) ! k) = Done)
           \<longrightarrow> completedAt (tasks (updateTask i p now s) ! k) = completedAt (tasks s ! k))
      \<and> (completedAt (tasks s ! k) \<noteq> None
           \<longrightarrow> completedAt (tasks (updateTask i p now s) ! k) \<noteq> None))"
  by (auto simp: addTask_def updateTask_def applyPatch_def orElse_def Let_def split: option.splits)

text \<open>
  The theorem at a store of two tasks: the update moves the first one from Todo to Done
  and does not match the second.
\<close>

theorem completedAt_rule_witness:
  "completedAt (tasks (updateTask ''a'' (emptyPatch\<lparr> patch_status := Some Done \<rparr>) ''2024-03-04T12:00:00.000Z''
                  \<lparr> tasks = [taskA, taskB], lastDeleted = None \<rparr>) ! 0) = Some ''2024-03-04T12:00:00.000Z''
   \<and> completedAt (tasks (updateTask ''a'' (emptyPatch\<lparr> patch_status := Some Done \<rparr>) ''2024-03-04T12:00:00.000Z''
                  \<lparr> tasks = [taskA, taskB], lastDeleted = None \<rparr>) ! 1) = None"
proof -
  let ?p = "emptyPatch\<lparr> patch_status := Some Done \<rparr>"
  let ?s = "\<lparr> tasks = [taskA, taskB], lastDeleted = None \<rparr>"
  let ?s' = "updateTask ''a'' ?p ''2024-03-04T12:00:00.000Z'' ?s"
  note r = completedAt_rule [of payloadA "''2024-03-04T12:00:00.000Z''" "''u-1''" ?s "''a''" ?p]
  have st0: "status (tasks ?s ! 0) \<noteq> Done \<and> status (tasks ?s' ! 0) = Done"
    by (simp add: updateTask_def applyPatch_def taskA_def emptyPatch_def orElse_def)
  have st1: "\<not> (status (tasks ?s ! 1) \<noteq> Done \<and> status (tasks ?s' ! 1) = Done)"
    by (simp add: updateTask_def applyPatch_def taskA_def taskB_def emptyPatch_def orElse_def)
  have c1: "completedAt (tasks ?s ! 1) = None" by (simp add: taskB_def)
  have k0: "(0::nat) < length (tasks ?s)" and k1: "(1::nat) < length (tasks ?s)" by simp_all
  from r k0 st0 have a: "completedAt (tasks ?s' ! 0) = Some ''2024-03-04T12:00:00.000Z''" by blast
  from r k1 st1 have "completedAt (tasks ?s' ! 1) = completedAt (tasks ?s ! 1)" by blast
  with c1 a show ?thesis by simp
qed

text \<open>\<^verbatim>\<open>addTask\<close> stores a positive \<^verbatim>\<open>timeTaken\<close>: it keeps the invariant.\<close>

lemma addTask_timeTaken_positive:
  "list_all (\<lambda>t. js_gt (timeTaken t) (Fin 0)) (tasks s)
     \<Longrightarrow> list_all (\<lambda>t. js_gt (timeTaken t) (Fin 0)) (tasks (addTask p now uuid s))"
  by (simp add: addTask_def Let_def js_gt_def)

text \<open>
  Claim C5 says that the store clamps a \<^verbatim>\<open>timeTaken\<close> that is not positive to 1 in
  every mutation. \<^verbatim>\<open>addTask\<close> does (previous lemma); \<^verbatim>\<open>updateTask\<close> merges the
  patch as it comes: a store whose only task has \<^verbatim>\<open>timeTaken = 2\<close> holds a task with
  \<^verbatim>\<open>timeTaken = 0\<close> after \<^verbatim>\<open>updateTask('a', { timeTaken: 0 })\<close>.
\<close>

theorem updateTask_timeTaken_not_clamped:
  "list_all (\<lambda>t. js_gt (timeTaken t) (Fin 0)) (tasks \<lparr> tasks = [taskA], lastDeleted = None \<rparr>)
   \<and> map timeTaken (tasks (updateTask ''a'' (emptyPatch\<lparr> patch_timeTaken := Some (Fin 0) \<rparr>)
                              ''2024-02-01T08:00:00.000Z'' \<lparr> tasks = [taskA], lastDeleted = None \<rparr>))
       = [Fin 0]
   \<and> \<not> js_gt (Fin 0) (Fin 0)"
  by (simp add: updateTask_def applyPatch_def taskA_def emptyPatch_def orElse_def js_gt_def)

section \<open>Properties of the funnel\<close>

text \<open>
  Claim C3 says that both conversion ratios lie within \<open>[0, 1]\<close>. The second one is
  \<^verbatim>\<open>done / inProgress\<close>, which no count bounds: with one task In Progress and two
  Done it is 2.
\<close>

theorem funnel_done_over_inProgress_exceeds_one:
  "conversionInProgressToDone (computeFunnel [taskB, taskC, taskD]) = Fin 2
   \<and> \<not> js_le (Fin 2) (Fin 1)"
proof -
  have "round_double (of_int 2) = Fin (of_int 2)" by (rule round_double_of_int) simp
  then show ?thesis
    by (simp add: computeFunnel_def taskB_def taskC_def taskD_def js_le_def)
qed

lemma fdiv_nat_nonneg: "m \<noteq> 0 \<Longrightarrow> js_le (Fin 0) (fdiv (Fin (of_nat n)) (Fin (of_nat m)))"
  by (simp add: round_double_nonneg)

lemma fdiv_nat_le_1: "m \<noteq> 0 \<Longrightarrow> n \<le> m \<Longrightarrow> js_le (fdiv (Fin (of_nat n)) (Fin (of_nat m))) (Fin 1)"
  by (simp add: round_double_le_1 divide_le_eq)

lemma fdiv_nat_gt_1:
  assumes "0 < m" "m < n" "n < 2 ^ 32"
  shows "\<not> js_le (fdiv (Fin (of_nat n)) (Fin (of_nat m))) (Fin 1)"
proof -
  let ?q = "of_nat n / of_nat m :: rat"
  have m0: "(0::rat) < of_nat m" using assms(1) by simp
  have q0: "0 < ?q" using assms by simp
  have "(1::rat) \<le> of_nat m" using assms(1) by simp
  then have "(of_nat n :: rat) * 1 \<le> of_nat n * of_nat m" by (intro mult_left_mono) simp_all
  then have "?q \<le> of_nat n" using m0 by (simp add: divide_le_eq)
  also have "(of_nat n :: rat) \<le> of_nat (2 ^ 32)" using assms(3) by (simp only: of_nat_le_iff)
  finally have qu: "?q \<le> 2 powi 32" by simp
  have fin: "round_double ?q = Fin (rounded ?q)"
    using q0 qu by (rule round_double_finite) simp_all
  have "1 < rounded ?q"
  proof (cases "?q \<le> 2")
    case True
    then have "?q \<le> 2 powi 1" by simp
    with q0 have "binade ?q \<le> 1" by (rule binade_le_of_le) simp
    then have b: "binade ?q \<le> - 32 + 52" by simp
    have "(2 ^ 32 + 1) * m \<le> n * 2 ^ 32" using assms by simp
    then have "(of_nat ((2 ^ 32 + 1) * m) :: rat) \<le> of_nat (n * 2 ^ 32)" by (simp only: of_nat_le_iff)
    then have "(2 ^ 32 + 1) * (of_nat m :: rat) \<le> of_nat n * 2 ^ 32" by simp
    then have "(2 ^ 32 + 1) / (2 ^ 32 :: rat) \<le> ?q"
      using m0 by (simp add: field_simps)
    then have "of_int (2 ^ 32 + 1) * 2 powi (- 32) \<le> ?q"
      by (simp add: power_int_minus field_simps)
    with q0 b have "of_int (2 ^ 32 + 1) * 2 powi (- 32) \<le> rounded ?q" by (rule rounded_ge)
    moreover have "(1::rat) < of_int (2 ^ 32 + 1) * 2 powi (- 32)"
      by (simp add: power_int_minus field_simps)
    ultimately show ?thesis by linarith
  next
    case False
    have "binade ?q \<le> 32" using q0 qu by (rule binade_le_of_le) simp
    then have b: "binade ?q \<le> 0 + 52" by simp
    have "of_int 2 * 2 powi 0 \<le> ?q" using False by simp
    with q0 b have "of_int 2 * 2 powi 0 \<le> rounded ?q" by (rule rounded_ge)
    then show ?thesis by simp
  qed
  then show ?thesis using assms(1) by (simp add: fin js_le_def)
qed

text \<open>
  Claim C3, as the code has it. The counts are the numbers of tasks of each status. The
  first ratio is \<^verbatim>\<open>(inProgress + done) / base\<close>, rounded to the nearest double, and lies
  within \<open>[0, 1]\<close>. The second is \<^verbatim>\<open>done / inProgress\<close>, rounded to the nearest double;
  it is never negative, it is at most 1 when no task is In Progress or there are no more
  Done tasks than In Progress ones, and it exceeds 1 when there are tasks In Progress and
  more Done ones, in a list of fewer than \<open>2^32\<close> tasks, the bound of an array's length.
  Each ratio is 0 when its denominator is 0.
\<close>

theorem funnel_conversions:
  "(let todo = length (filter (\<lambda>t. status t = Todo) ts);
        inProgress = length (filter (\<lambda>t. status t = InProgress) ts);
        done' = length (filter (\<lambda>t. status t = Done) ts);
        f = computeFunnel ts
    in funnel_todo f = todo \<and> funnel_inProgress f = inProgress \<and> funnel_done f = done'
       \<and> conversionTodoToInProgress f
           = (if todo + inProgress + done' = 0 then Fin 0
              else round_double (of_nat (inProgress + done') / of_nat (todo + inProgress + done')))
       \<and> conversionInProgressToDone f
           = (if inProgress = 0 then Fin 0 else round_double (of_nat done' / of_nat inProgress))
       \<and> js_le (Fin 0) (conversionTodoToInProgress f)
       \<and> js_le (conversionTodoToInProgress f) (Fin 1)
       \<and> js_le (Fin 0) (conversionInProgressToDone f)
       \<and> (inProgress = 0 \<or> done' \<le> inProgress \<longrightarrow> js_le (conversionInProgressToDone f) (Fin 1))
       \<and> (length ts < 2 ^ 32 \<and> 0 < inProgress \<and> inProgress < done'
            \<longrightarrow> \<not> js_le (conversionInProgressToDone f) (Fin 1)))"
proof -
  let ?t = "length (filter (\<lambda>t. status t = Todo) ts)"
  let ?i = "length (filter (\<lambda>t. status t = InProgress) ts)"
  let ?d = "length (filter (\<lambda>t. status t = Done) ts)"
  have z: "js_le (Fin 0) (Fin 0)" "js_le (Fin 0) (Fin 1)" by (simp_all add: js_le_def)
  have c1: "conversionTodoToInProgress (computeFunnel ts) =
              (if ?t + ?i + ?d \<noteq> 0 then fdiv (Fin (of_nat (?i + ?d))) (Fin (of_nat (?t + ?i + ?d))) else Fin 0)"
    by (simp add: computeFunnel_def Let_def)
  have c2: "conversionInProgressToDone (computeFunnel ts) =
              (if ?i \<noteq> 0 then fdiv (Fin (of_nat ?d)) (Fin (of_nat ?i)) else Fin 0)"
    by (simp add: computeFunnel_def Let_def)
  have n: "funnel_todo (computeFunnel ts) = ?t" "funnel_inProgress (computeFunnel ts) = ?i"
          "funnel_done (computeFunnel ts) = ?d"
    by (simp_all add: computeFunnel_def Let_def)
  have v1: "conversionTodoToInProgress (computeFunnel ts)
           = (if ?t + ?i + ?d = 0 then Fin 0
              else round_double (of_nat (?i + ?d) / of_nat (?t + ?i + ?d)))"
    unfolding c1 by (simp del: of_nat_add)
  have v2: "conversionInProgressToDone (computeFunnel ts)
           = (if ?i = 0 then Fin 0 else round_double (of_nat ?d / of_nat ?i))"
    unfolding c2 by simp
  have a: "js_le (Fin 0) (conversionTodoToInProgress (computeFunnel ts))"
    unfolding c1 using z fdiv_nat_nonneg[of "?t + ?i + ?d" "?i + ?d"] by (simp del: fdiv.simps of_nat_add)
  have b: "js_le (conversionTodoToInProgress (computeFunnel ts)) (Fin 1)"
    unfolding c1 using z fdiv_nat_le_1[of "?t + ?i + ?d" "?i + ?d"] by (simp del: fdiv.simps of_nat_add)
  have c: "js_le (Fin 0) (conversionInProgressToDone (computeFunnel ts))"
    unfolding c2 using z fdiv_nat_nonneg[of ?i ?d] by (simp del: fdiv.simps)
  have d: "?i = 0 \<or> ?d \<le> ?i \<longrightarrow> js_le (conversionInProgressToDone (computeFunnel ts)) (Fin 1)"
    unfolding c2 using z fdiv_nat_le_1[of ?i ?d] by (auto simp del: fdiv.simps)
  have e: "length ts < 2 ^ 32 \<and> 0 < ?i \<and> ?i < ?d
            \<longrightarrow> \<not> js_le (conversionInProgressToDone (computeFunnel ts)) (Fin 1)"
  proof
    assume h: "length ts < 2 ^ 32 \<and> 0 < ?i \<and> ?i < ?d"
    have "?d \<le> length ts" by (rule length_filter_le)
    with h have "?d < 2 ^ 32" by linarith
    with h have "\<not> js_le (fdiv (Fin (of_nat ?d)) (Fin (of_nat ?i))) (Fin 1)"
      by (intro fdiv_nat_gt_1) simp_all
    then show "\<not> js_le (conversionInProgressToDone (computeFunnel ts)) (Fin 1)"
      unfolding c2 using h by (simp del: fdiv.simps)
  qed
  show ?thesis unfolding Let_def n using v1 v2 a b c d e by blast
qed

text \<open>
  The theorem at four lists: one with as many Done as In Progress tasks, the empty list,
  a list without a task In Progress, and the list of the counterexample.
\<close>

theorem funnel_conversions_witness:
  "js_le (conversionInProgressToDone (computeFunnel [taskA, taskB, taskC])) (Fin 1)
   \<and> conversionTodoToInProgress (computeFunnel []) = Fin 0
   \<and> conversionInProgressToDone (computeFunnel [taskC]) = Fin 0
   \<and> \<not> js_le (conversionInProgressToDone (computeFunnel [taskB, taskC, taskD])) (Fin 1)"
proof -
  have 1: "length (filter (\<lambda>t. status t = Done) [taskA, taskB, taskC])
             \<le> length (filter (\<lambda>t. status t = InProgress) [taskA, taskB, taskC])"
    by (simp add: taskA_def taskB_def taskC_def)
  have 3: "length (filter (\<lambda>t. status t = InProgress) [taskC]) = 0"
    by (simp add: taskC_def)
  have 4: "length [taskB, taskC, taskD] < 2 ^ 32
           \<and> 0 < length (filter (\<lambda>t. status t = InProgress) [taskB, taskC, taskD])
           \<and> length (filter (\<lambda>t. status t = InProgress) [taskB, taskC, taskD])
               < length (filter (\<lambda>t. status t = Done) [taskB, taskC, taskD])"
    by (simp add: taskB_def taskC_def taskD_def)
  from funnel_conversions [of "[taskA, taskB, taskC]", unfolded Let_def] 1
  have a: "js_le (conversionInProgressToDone (computeFunnel [taskA, taskB, taskC])) (Fin 1)" by blast
  from funnel_conversions [of "[]", unfolded Let_def]
  have b: "conversionTodoToInProgress (computeFunnel []) = Fin 0" by simp
  from funnel_conversions [of "[taskC]", unfolded Let_def] 3
  have c: "conversionInProgressToDone (computeFunnel [taskC]) = Fin 0" by simp
  from funnel_conversions [of "[taskB, taskC, taskD]", unfolded Let_def] 4
  have d: "\<not> js_le (conversionInProgressToDone (computeFunnel [taskB, taskC, taskD])) (Fin 1)" by blast
  from a b c d show ?thesis by blast
qed

section \<open>Properties of the ROI\<close>

text \<open>
  \<^verbatim>\<open>computeROI\<close> returns \<^verbatim>\<open>null\<close> exactly when an argument is not finite or the time
  is not positive, and what it returns otherwise is a number, never NaN.
\<close>

lemma computeROI_None_iff:
  "computeROI r t = None \<longleftrightarrow> \<not> isFinite r \<or> \<not> isFinite t \<or> js_le t (Fin 0)"
  by (simp add: computeROI_def)

lemma number_toFixed2_is_number: "is_number x \<Longrightarrow> is_number (number_toFixed2 x)"
  by (cases x) (simp_all add: round_double_is_number)

lemma computeROI_is_number: "computeROI r t = Some x \<Longrightarrow> is_number x"
proof -
  assume a: "computeROI r t = Some x"
  then obtain a b where r: "r = Fin a" and t: "t = Fin b" and b: "\<not> js_le (Fin b) (Fin 0)"
    by (cases r; cases t) (auto simp: computeROI_def split: if_splits)
  from b have "b \<noteq> 0" by (auto simp: js_le_def)
  then have "is_number (fdiv r t)" by (simp add: r t round_double_is_number)
  then have "is_number (number_toFixed2 (fdiv r t))" by (rule number_toFixed2_is_number)
  with a b show ?thesis by (simp add: computeROI_def r t)
qed

lemma computeROI_not_NaN: "computeROI r t \<noteq> Some NaN"
  using computeROI_is_number[of r t NaN] by auto

text \<open>
  A quotient of \<open>2 powi 1024\<close> or more has no finite double: it rounds to \<open>+\<infinity>\<close>.
\<close>

lemma round_double_overflow:
  assumes "double_overflow \<le> q"
  shows "round_double q = PInf"
proof -
  have "(0::rat) < 2 powi 1024" by (rule zero_less_power_int) simp
  with assms have q: "0 < q" by (simp only: double_overflow_def)
  have "(2::rat) powi 1024 \<le> q" using assms by (simp only: double_overflow_def)
  also have "q < 2 powi (ilog2 q + 1)" using q by (rule ilog2_bounds)
  finally have "1024 < ilog2 q + 1" by (rule pow2_less_iff [THEN iffD1])
  then have lo: "1024 \<le> ilog2 q" by simp
  have "\<bar>q\<bar> = q" using q by simp
  then have "binade q = max (ilog2 q) (- 1022)" unfolding binade_def by (rule arg_cong)
  with lo have b: "binade q = ilog2 q" by simp
  have pb: "2 powi (ilog2 q) = of_int (2 ^ nat (ilog2 q + 52 - binade q)) * ulp q"
    by (rule ulp_divides_pow) (simp add: b)
  have "2 powi (ilog2 q) \<le> q" using q by (rule ilog2_bounds)
  then have "of_int (2 ^ nat (ilog2 q + 52 - binade q)) \<le> q / ulp q"
    unfolding pb by (simp add: pos_le_divide_eq ulp_def)
  then have "2 ^ nat (ilog2 q + 52 - binade q) \<le> round_half_even (q / ulp q)"
    by (rule round_half_even_ge)
  then have "(of_int (2 ^ nat (ilog2 q + 52 - binade q)) :: rat) \<le> of_int (round_half_even (q / ulp q))"
    by (simp only: of_int_le_iff)
  then have "2 powi (ilog2 q) \<le> of_int (round_half_even (q / ulp q)) * ulp q"
    unfolding pb by (intro mult_right_mono) simp_all
  moreover have "(2::rat) powi 1024 \<le> 2 powi (ilog2 q)" using lo by (simp only: pow2_le_iff)
  ultimately have "double_overflow \<le> of_int (round_half_even (q / ulp q)) * ulp q"
    by (simp add: double_overflow_def)
  then show ?thesis by (simp add: round_double_pos[OF q])
qed

text \<open>
  Claim C1 says that \<^verbatim>\<open>computeROI\<close> never returns Infinity. Both arguments of
  \<^verbatim>\<open>computeROI(2 ** 1023, 0.5)\<close> are finite and the time is positive, so no guard
  returns \<^verbatim>\<open>null\<close>; the quotient \<open>2 ^ 1024\<close> overflows to \<^verbatim>\<open>Infinity\<close>, which
  \<^verbatim>\<open>toFixed(2)\<close> writes as \<^verbatim>\<open>"Infinity"\<close> and \<^verbatim>\<open>Number\<close> reads back.
\<close>

theorem computeROI_overflows_to_Infinity:
  "isFinite (Fin (2 ^ 1023)) \<and> isFinite (Fin (1 / 2)) \<and> \<not> js_le (Fin (1 / 2)) (Fin 0)
   \<and> computeROI (Fin (2 ^ 1023)) (Fin (1 / 2)) = Some PInf"
proof -
  have "(2::rat) ^ 1023 / (1 / 2) = 2 ^ 1023 * 2 ^ 1" by simp
  also have "\<dots> = 2 ^ 1024" by (simp only: power_add [symmetric]) simp
  finally have "double_overflow \<le> (2::rat) ^ 1023 / (1 / 2)"
    by (simp only: double_overflow_def power_int_numeral order_refl)
  then have "round_double ((2::rat) ^ 1023 / (1 / 2)) = PInf" by (rule round_double_overflow)
  then have "fdiv (Fin (2 ^ 1023)) (Fin (1 / 2)) = PInf" by (simp del: power_numeral)
  then show ?thesis by (simp add: computeROI_def js_le_def del: fdiv.simps)
qed

text \<open>
  The same call read through \<^verbatim>\<open>roi ?? 0\<close>: the value that reaches the caller is
  \<^verbatim>\<open>Infinity\<close>.
\<close>

theorem computeROI_overflows_to_Infinity_witness:
  "orElse (computeROI (Fin (2 ^ 1023)) (Fin (1 / 2))) (Fin 0) = PInf"
proof -
  from computeROI_overflows_to_Infinity
  have "computeROI (Fin (2 ^ 1023)) (Fin (1 / 2)) = Some PInf" by blast
  then show ?thesis by (simp only: orElse_def option.simps)
qed

section \<open>Properties of the ranking\<close>

lemma js_lt_irrefl: "\<not> js_lt x x"
  by (cases x) simp_all

lemma js_lt_trans: "js_lt x y \<Longrightarrow> js_lt y z \<Longrightarrow> js_lt x z"
  by (cases x; cases y; cases z) simp_all

lemma js_lt_asym: "js_lt x y \<Longrightarrow> \<not> js_lt y x"
  by (cases x; cases y) simp_all

lemma js_lt_trichotomy: "x \<noteq> NaN \<Longrightarrow> y \<noteq> NaN \<Longrightarrow> js_lt x y \<or> x = y \<or> js_lt y x"
  by (cases x; cases y) auto

lemma is_number_not_NaN: "is_number x \<Longrightarrow> x \<noteq> NaN"
  by (cases x) simp_all

lemma on_grid_diff: "on_grid a \<Longrightarrow> on_grid b \<Longrightarrow> on_grid (b - a)"
proof -
  assume "on_grid a" "on_grid b"
  then obtain k l where "a = of_int k * subnormal_spacing" "b = of_int l * subnormal_spacing"
    by (elim on_gridE)
  then have "b - a = of_int (l - k) * subnormal_spacing" by (simp add: algebra_simps)
  then show ?thesis by (rule on_gridI)
qed

lemma on_grid_of_int: "on_grid (of_int k)"
proof -
  have "(2::rat) powi (1074 + (- 1074)) = 2 powi 1074 * 2 powi (- 1074)"
    by (rule power_int_add) simp
  then have "(1::rat) = of_int (2 ^ 1074) * subnormal_spacing"
    by (simp add: subnormal_spacing_def del: power_int_minus)
  then have "of_int k = of_int (k * 2 ^ 1074) * subnormal_spacing"
    by (simp add: mult.assoc del: of_int_power)
  then show ?thesis by (rule on_gridI)
qed

text \<open>
  The sign of a difference of two numbers is the sign of the exact difference: two
  different doubles are at least one subnormal spacing apart, so their difference does
  not round to zero.
\<close>

lemma fsub_sign:
  assumes "is_number x" "is_number y"
  shows "js_gt (fsub y x) (Fin 0) = js_lt x y"
proof (cases x)
  case (Fin a)
  note x = this
  show ?thesis
  proof (cases y)
    case (Fin b)
    from assms x Fin have g: "on_grid (b - a)" by (simp add: on_grid_diff)
    have f: "fsub (Fin b) (Fin a) = round_double (b - a)" by (simp add: fsub_def)
    consider "a < b" | "a = b" | "b < a" by linarith
    then show ?thesis
    proof cases
      case 1
      then have "js_lt (Fin 0) (round_double (b - a))" using g by (intro round_double_pos_sign) simp_all
      with 1 show ?thesis unfolding x Fin f js_gt_def by simp
    next
      case 2
      then show ?thesis unfolding x Fin f js_gt_def by (simp add: round_double_def)
    next
      case 3
      then have "js_lt (round_double (b - a)) (Fin 0)" using g by (intro round_double_neg_sign) simp_all
      then have "\<not> js_lt (Fin 0) (round_double (b - a))" by (rule js_lt_asym)
      with 3 show ?thesis unfolding x Fin f js_gt_def by simp
    qed
  qed (use assms x in \<open>simp_all add: fsub_def js_gt_def\<close>)
next
  case PInf
  with assms show ?thesis by (cases y) (simp_all add: fsub_def js_gt_def)
next
  case NInf
  with assms show ?thesis by (cases y) (simp_all add: fsub_def js_gt_def)
next
  case NaN
  with assms show ?thesis by simp
qed

lemma is_number_neq: "is_number x \<Longrightarrow> is_number y \<Longrightarrow> js_neq y x = (y \<noteq> x)"
  by (auto simp: js_neq_def dest: is_number_not_NaN)

text \<open>
  On such tasks the comparator of the code puts \<open>a\<close> in front of \<open>b\<close>, or ties them,
  exactly when the order of the specification allows \<open>a\<close> in front of \<open>b\<close>.
\<close>

lemma compare_spec:
  assumes "derived_ok a" "derived_ok b"
  shows "(\<not> js_gt (compareTasks lc a b) (Fin 0)) = spec_before lc a b"
proof -
  let ?ra = "orElse (roi a) (Fin (- 1))" and ?rb = "orElse (roi b) (Fin (- 1))"
  let ?pa = "priorityWeight a" and ?pb = "priorityWeight b"
  from assms have n: "is_number ?ra" "is_number ?rb" "is_number ?pa" "is_number ?pb"
    by (simp_all add: derived_ok_def)
  note nn = n [THEN is_number_not_NaN]
  show ?thesis
  proof (cases "?rb = ?ra")
    case False
    with js_lt_trichotomy[OF nn(1) nn(2)] js_lt_asym[of ?ra ?rb]
    have "(\<not> js_lt ?ra ?rb) = js_lt ?rb ?ra" by auto
    with False show ?thesis
      by (simp add: compareTasks_def spec_before_def Let_def is_number_neq[OF n(1) n(2)]
          fsub_sign[OF n(1) n(2)])
  next
    case True
    note r = this
    show ?thesis
    proof (cases "?pb = ?pa")
      case False
      with js_lt_trichotomy[OF nn(3) nn(4)] js_lt_asym[of ?pa ?pb]
      have "(\<not> js_lt ?pa ?pb) = js_lt ?pb ?pa" by auto
      with False r show ?thesis
        by (simp add: compareTasks_def spec_before_def Let_def is_number_neq[OF n(1) n(1)]
            is_number_neq[OF n(3) n(4)] fsub_sign[OF n(3) n(4)] js_lt_irrefl)
    next
      case True
      with r show ?thesis
        by (simp add: compareTasks_def spec_before_def Let_def is_number_neq[OF n(1) n(1)]
            is_number_neq[OF n(3) n(3)] js_lt_irrefl)
    qed
  qed
qed

text \<open>
  The sort returns a permutation of its input; for a comparator that is total and
  transitive on the elements the result is ordered, and a list that is ordered already
  is returned as it is.
\<close>

lemma sort_insert_mset: "mset (sort_insert cmp x ys) = add_mset x (mset ys)"
  by (induction ys) simp_all

lemma array_sort_Cons: "array_sort cmp (x # xs) = sort_insert cmp x (array_sort cmp xs)"
  by (simp add: array_sort_def)

lemma array_sort_Nil: "array_sort cmp [] = []"
  by (simp add: array_sort_def)

lemma array_sort_mset: "mset (array_sort cmp xs) = mset xs"
  by (induction xs) (simp_all add: array_sort_Cons array_sort_Nil sort_insert_mset)

lemma array_sort_set: "set (array_sort cmp xs) = set xs"
  using array_sort_mset[of cmp xs] by (metis set_mset_mset)

lemma array_sort_length: "length (array_sort cmp xs) = length xs"
  using array_sort_mset[of cmp xs] by (metis size_mset)

lemma sort_insert_sorted:
  assumes total: "\<And>a b. a \<in> S \<Longrightarrow> b \<in> S \<Longrightarrow> js_gt (cmp a b) (Fin 0) \<Longrightarrow> \<not> js_gt (cmp b a) (Fin 0)"
    and trans: "\<And>a b c. a \<in> S \<Longrightarrow> b \<in> S \<Longrightarrow> c \<in> S \<Longrightarrow> \<not> js_gt (cmp a b) (Fin 0)
                  \<Longrightarrow> \<not> js_gt (cmp b c) (Fin 0) \<Longrightarrow> \<not> js_gt (cmp a c) (Fin 0)"
    and "x \<in> S" "set ys \<subseteq> S" "sorted_wrt (\<lambda>a b. \<not> js_gt (cmp a b) (Fin 0)) ys"
  shows "sorted_wrt (\<lambda>a b. \<not> js_gt (cmp a b) (Fin 0)) (sort_insert cmp x ys)"
  using assms(3-)
proof (induction ys)
  case Nil
  then show ?case by simp
next
  case (Cons y ys)
  show ?case
  proof (cases "js_gt (cmp x y) (Fin 0)")
    case True
    have "\<not> js_gt (cmp y x) (Fin 0)" using total[OF _ _ True] Cons.prems by simp
    moreover have "\<forall>z \<in> set ys. \<not> js_gt (cmp y z) (Fin 0)" using Cons.prems by simp
    moreover have "set (sort_insert cmp x ys) = insert x (set ys)"
      using sort_insert_mset[of cmp x ys] by (metis set_mset_add_mset_insert set_mset_mset)
    moreover have "sorted_wrt (\<lambda>a b. \<not> js_gt (cmp a b) (Fin 0)) (sort_insert cmp x ys)"
      using Cons by simp
    ultimately show ?thesis using True by simp
  next
    case False
    have "\<forall>z \<in> set ys. \<not> js_gt (cmp x z) (Fin 0)"
    proof
      fix z assume z: "z \<in> set ys"
      then have "\<not> js_gt (cmp y z) (Fin 0)" using Cons.prems by simp
      with False show "\<not> js_gt (cmp x z) (Fin 0)"
        using trans[of x y z] Cons.prems z by auto
    qed
    with False Cons.prems show ?thesis by simp
  qed
qed

lemma array_sort_sorted:
  assumes total: "\<And>a b. a \<in> S \<Longrightarrow> b \<in> S \<Longrightarrow> js_gt (cmp a b) (Fin 0) \<Longrightarrow> \<not> js_gt (cmp b a) (Fin 0)"
    and trans: "\<And>a b c. a \<in> S \<Longrightarrow> b \<in> S \<Longrightarrow> c \<in> S \<Longrightarrow> \<not> js_gt (cmp a b) (Fin 0)
                  \<Longrightarrow> \<not> js_gt (cmp b c) (Fin 0) \<Longrightarrow> \<not> js_gt (cmp a c) (Fin 0)"
    and "set xs \<subseteq> S"
  shows "sorted_wrt (\<lambda>a b. \<not> js_gt (cmp a b) (Fin 0)) (array_sort cmp xs)"
  using assms(3)
proof (induction xs)
  case Nil
  then show ?case by (simp add: array_sort_Nil)
next
  case (Cons x xs)
  then have s: "sorted_wrt (\<lambda>a b. \<not> js_gt (cmp a b) (Fin 0)) (array_sort cmp xs)" by simp
  have sub: "set (array_sort cmp xs) \<subseteq> S" using Cons.prems by (simp add: array_sort_set)
  have x: "x \<in> S" using Cons.prems by simp
  show ?case
    unfolding array_sort_Cons
  proof (rule sort_insert_sorted[where S = S])
    show "\<And>a b. a \<in> S \<Longrightarrow> b \<in> S \<Longrightarrow> js_gt (cmp a b) (Fin 0) \<Longrightarrow> \<not> js_gt (cmp b a) (Fin 0)"
      by (rule total)
    show "\<And>a b c. a \<in> S \<Longrightarrow> b \<in> S \<Longrightarrow> c \<in> S \<Longrightarrow> \<not> js_gt (cmp a b) (Fin 0)
                  \<Longrightarrow> \<not> js_gt (cmp b c) (Fin 0) \<Longrightarrow> \<not> js_gt (cmp a c) (Fin 0)"
      by (rule trans)
  qed (fact x sub s)+
qed

lemma array_sort_sorted_id:
  "sorted_wrt (\<lambda>a b. \<not> js_gt (cmp a b) (Fin 0)) xs \<Longrightarrow> array_sort cmp xs = xs"
proof (induction xs)
  case Nil
  then show ?case by (simp add: array_sort_Nil)
next
  case (Cons x xs)
  then have "array_sort cmp xs = xs" by simp
  then show ?case using Cons.prems by (cases xs) (simp_all add: array_sort_Cons)
qed

lemma comparator_total:
  assumes "consistent_comparator lc"
  shows "js_gt (lc x y) (Fin 0) \<Longrightarrow> \<not> js_gt (lc y x) (Fin 0)"
proof -
  assume "js_gt (lc x y) (Fin 0)"
  with assms have "js_lt (lc y x) (Fin 0)" by (simp add: consistent_comparator_def)
  then show ?thesis unfolding js_gt_def by (rule js_lt_asym)
qed

lemma comparator_trans:
  assumes "consistent_comparator lc"
  shows "\<not> js_gt (lc x y) (Fin 0) \<Longrightarrow> \<not> js_gt (lc y z) (Fin 0) \<Longrightarrow> \<not> js_gt (lc x z) (Fin 0)"
  using assms unfolding consistent_comparator_def by blast

lemma spec_before_total:
  assumes lc: "consistent_comparator lc" and ok: "derived_ok a" "derived_ok b"
  shows "spec_before lc a b \<or> spec_before lc b a"
proof -
  let ?ra = "orElse (roi a) (Fin (- 1))" and ?rb = "orElse (roi b) (Fin (- 1))"
  let ?pa = "priorityWeight a" and ?pb = "priorityWeight b"
  from ok have n: "?ra \<noteq> NaN" "?rb \<noteq> NaN" "?pa \<noteq> NaN" "?pb \<noteq> NaN"
    by (simp_all add: derived_ok_def is_number_not_NaN)
  from js_lt_trichotomy[OF n(1) n(2)] js_lt_trichotomy[OF n(3) n(4)]
    comparator_total[OF lc, of "title a" "title b"]
  show ?thesis unfolding spec_before_def Let_def by auto
qed

lemma spec_before_trans:
  assumes lc: "consistent_comparator lc"
    and ab: "spec_before lc a b" and bc: "spec_before lc b c"
  shows "spec_before lc a c"
proof -
  let ?ra = "orElse (roi a) (Fin (- 1))" and ?rb = "orElse (roi b) (Fin (- 1))"
  let ?rc = "orElse (roi c) (Fin (- 1))"
  let ?pa = "priorityWeight a" and ?pb = "priorityWeight b" and ?pc = "priorityWeight c"
  from ab have ab': "js_lt ?rb ?ra \<or> (?rb = ?ra \<and> (js_lt ?pb ?pa
      \<or> (?pb = ?pa \<and> \<not> js_gt (lc (title a) (title b)) (Fin 0))))"
    by (simp add: spec_before_def Let_def)
  from bc have bc': "js_lt ?rc ?rb \<or> (?rc = ?rb \<and> (js_lt ?pc ?pb
      \<or> (?pc = ?pb \<and> \<not> js_gt (lc (title b) (title c)) (Fin 0))))"
    by (simp add: spec_before_def Let_def)
  have "js_lt ?rc ?ra \<or> (?rc = ?ra \<and> (js_lt ?pc ?pa
      \<or> (?pc = ?pa \<and> \<not> js_gt (lc (title a) (title c)) (Fin 0))))"
    using ab' bc' js_lt_trans[of ?rc ?rb ?ra] js_lt_trans[of ?pc ?pb ?pa]
      comparator_trans[OF lc, of "title a" "title b" "title c"]
    by auto
  then show ?thesis by (simp add: spec_before_def Let_def)
qed

lemma lexCompare_values: "lexCompare x y = Fin (- 1) \<or> lexCompare x y = Fin 0 \<or> lexCompare x y = Fin 1"
  by (induction x y rule: lexCompare.induct) auto

lemma lexCompare_swap: "lexCompare x y = Fin 1 \<longleftrightarrow> lexCompare y x = Fin (- 1)"
  by (induction x y rule: lexCompare.induct) auto

lemma lexCompare_gt: "js_gt (lexCompare x y) (Fin 0) \<longleftrightarrow> lexCompare x y = Fin 1"
  using lexCompare_values[of x y] by (auto simp: js_gt_def)

lemma lexCompare_lt: "js_lt (lexCompare x y) (Fin 0) \<longleftrightarrow> lexCompare x y = Fin (- 1)"
  using lexCompare_values[of x y] by auto

lemma lexCompare_trans:
  "lexCompare x y \<noteq> Fin 1 \<Longrightarrow> lexCompare y z \<noteq> Fin 1 \<Longrightarrow> lexCompare x z \<noteq> Fin 1"
proof (induction x y arbitrary: z rule: lexCompare.induct)
  case 1
  then show ?case by (cases z) simp_all
next
  case (2 y ys)
  then show ?case by (cases z) simp_all
next
  case (3 x xs)
  then show ?case by simp
next
  case (4 x xs y ys)
  show ?case
  proof (cases z)
    case Nil
    with 4 show ?thesis by simp
  next
    case (Cons c cs)
    let ?a = "of_char x :: nat" and ?b = "of_char y :: nat" and ?c = "of_char c :: nat"
    from "4.prems"(1) have ab: "?a \<le> ?b" "?a = ?b \<longrightarrow> lexCompare xs ys \<noteq> Fin 1"
      by (auto split: if_splits)
    from "4.prems"(2) have bc: "?b \<le> ?c" "?b = ?c \<longrightarrow> lexCompare ys cs \<noteq> Fin 1"
      unfolding Cons by (auto split: if_splits)
    have "?a = ?c \<longrightarrow> lexCompare xs cs \<noteq> Fin 1"
    proof
      assume "?a = ?c"
      with ab bc have e: "?a = ?b" "?b = ?c" by simp_all
      with ab bc have "lexCompare xs ys \<noteq> Fin 1" "lexCompare ys cs \<noteq> Fin 1" by simp_all
      with e "4.IH"[of cs] show "lexCompare xs cs \<noteq> Fin 1" by simp
    qed
    moreover have "?a \<le> ?c" using ab bc by simp
    ultimately show ?thesis unfolding Cons by simp
  qed
qed

lemma lexCompare_consistent: "consistent_comparator lexCompare"
  unfolding consistent_comparator_def lexCompare_gt lexCompare_lt
  using lexCompare_swap lexCompare_trans by blast

lemma withDerived_ok: "derived_ok (withDerived t)"
proof -
  have "is_number (orElse (computeROI (revenue t) (timeTaken t)) (Fin (- 1)))"
  proof (cases "computeROI (revenue t) (timeTaken t)")
    case None
    have "on_grid (of_int (- 1))" by (rule on_grid_of_int)
    with None show ?thesis by (simp add: orElse_def)
  next
    case (Some x)
    then show ?thesis by (simp add: orElse_def computeROI_is_number)
  qed
  moreover have "is_number (computePriorityWeight (priority t))"
    using on_grid_of_int[of 1] on_grid_of_int[of 2] on_grid_of_int[of 3]
    by (cases "priority t") simp_all
  ultimately show ?thesis by (simp add: derived_ok_def withDerived_def)
qed

lemma sortTasks_sorted:
  assumes lc: "consistent_comparator lc" and ok: "\<forall>d \<in> set ds. derived_ok d"
  shows "sorted_wrt (spec_before lc) (sortTasks lc ds)"
proof -
  let ?S = "{d. derived_ok d}"
  have "sorted_wrt (\<lambda>a b. \<not> js_gt (compareTasks lc a b) (Fin 0)) (array_sort (compareTasks lc) ds)"
  proof (rule array_sort_sorted[where S = ?S])
    fix a b assume a: "a \<in> ?S" and b: "b \<in> ?S" and g: "js_gt (compareTasks lc a b) (Fin 0)"
    from a b g have "\<not> spec_before lc a b" using compare_spec[of a b lc] by simp
    with spec_before_total[OF lc, of a b] a b have "spec_before lc b a" by simp
    then show "\<not> js_gt (compareTasks lc b a) (Fin 0)" using compare_spec[of b a lc] a b by simp
  next
    fix a b c assume "a \<in> ?S" "b \<in> ?S" "c \<in> ?S"
      "\<not> js_gt (compareTasks lc a b) (Fin 0)" "\<not> js_gt (compareTasks lc b c) (Fin 0)"
    then show "\<not> js_gt (compareTasks lc a c) (Fin 0)"
      using compare_spec[of a b lc] compare_spec[of b c lc] compare_spec[of a c lc]
        spec_before_trans[OF lc, of a b c] by simp
  next
    show "set ds \<subseteq> ?S" using ok by auto
  qed
  moreover have "\<forall>d \<in> set (array_sort (compareTasks lc) ds). derived_ok d"
    using ok by (simp add: array_sort_set)
  ultimately show ?thesis
    unfolding sortTasks_def
    by (elim sorted_wrt_mono_rel[rotated]) (simp add: compare_spec)
qed

lemma sortTasks_ref_result:
  assumes "r0 < length h"
  shows "sortTasks_ref lc r0 h = (length h, h @ [sortTasks lc (h ! r0)])"
  using assms
  by (simp add: sortTasks_ref_def array_spread_def array_sort_in_place_def sortTasks_def nth_append)

text \<open>
  Claim C2: for every list of derived tasks (the tasks \<^verbatim>\<open>withDerived\<close> returns),
  \<^verbatim>\<open>sortTasks\<close> returns a permutation of the input of equal length, ordered descending
  by ROI with a missing ROI counted as \<open>-1\<close>, then descending by priority weight, then
  ascending by title; sorting the result again, or any list already in that order,
  returns the same list; and the array passed in is not written to: the result is a new
  array, and every array that existed before the call holds what it held.
\<close>

theorem sortTasks_ranking:
  assumes lc: "consistent_comparator localeCompare"
  shows "mset (sortTasks localeCompare (map withDerived ts)) = mset (map withDerived ts)
     \<and> length (sortTasks localeCompare (map withDerived ts)) = length ts
     \<and> sorted_wrt (spec_before localeCompare) (sortTasks localeCompare (map withDerived ts))
     \<and> sortTasks localeCompare (sortTasks localeCompare (map withDerived ts))
           = sortTasks localeCompare (map withDerived ts)
     \<and> (sorted_wrt (spec_before localeCompare) (map withDerived ts)
           \<longrightarrow> sortTasks localeCompare (map withDerived ts) = map withDerived ts)
     \<and> (\<forall>h r0. r0 < length h \<and> h ! r0 = map withDerived ts \<longrightarrow>
            fst (sortTasks_ref localeCompare r0 h) \<noteq> r0
          \<and> snd (sortTasks_ref localeCompare r0 h) ! fst (sortTasks_ref localeCompare r0 h)
               = sortTasks localeCompare (map withDerived ts)
          \<and> (\<forall>i < length h. snd (sortTasks_ref localeCompare r0 h) ! i = h ! i))"
proof -
  let ?ds = "map withDerived ts"
  let ?le = "\<lambda>a b. \<not> js_gt (compareTasks localeCompare a b) (Fin 0)"
  have ok: "\<forall>d \<in> set ?ds. derived_ok d" by (simp add: withDerived_ok)
  have p: "mset (sortTasks localeCompare ?ds) = mset ?ds"
    by (simp only: sortTasks_def array_sort_mset)
  have l: "length (sortTasks localeCompare ?ds) = length ts"
    by (simp add: sortTasks_def array_sort_length)
  have s: "sorted_wrt (spec_before localeCompare) (sortTasks localeCompare ?ds)"
    using lc ok by (rule sortTasks_sorted)
  have id: "sorted_wrt (spec_before localeCompare) xs \<Longrightarrow> sortTasks localeCompare xs = xs"
    if "\<forall>d \<in> set xs. derived_ok d" for xs
  proof -
    assume "sorted_wrt (spec_before localeCompare) xs"
    then have "sorted_wrt ?le xs"
      using that by (elim sorted_wrt_mono_rel[rotated]) (simp add: compare_spec)
    then show ?thesis unfolding sortTasks_def by (rule array_sort_sorted_id)
  qed
  have ok': "\<forall>d \<in> set (sortTasks localeCompare ?ds). derived_ok d"
    using ok by (simp add: sortTasks_def array_sort_set)
  have i1: "sortTasks localeCompare (sortTasks localeCompare ?ds) = sortTasks localeCompare ?ds"
    using id[OF ok' s] .
  have i2: "sorted_wrt (spec_before localeCompare) ?ds \<longrightarrow> sortTasks localeCompare ?ds = ?ds"
    using id[OF ok] by blast
  have h: "\<forall>h r0. r0 < length h \<and> h ! r0 = ?ds \<longrightarrow>
            fst (sortTasks_ref localeCompare r0 h) \<noteq> r0
          \<and> snd (sortTasks_ref localeCompare r0 h) ! fst (sortTasks_ref localeCompare r0 h)
               = sortTasks localeCompare ?ds
          \<and> (\<forall>i < length h. snd (sortTasks_ref localeCompare r0 h) ! i = h ! i)"
    by (auto simp: sortTasks_ref_result nth_append)
  from p l s i1 i2 h show ?thesis by blast
qed

lemma number_toFixed2_of_int:
  assumes "\<bar>k\<bar> \<le> 2 ^ 53"
  shows "number_toFixed2 (Fin (of_int k)) = Fin (of_int k)"
proof -
  have "\<bar>k\<bar> < 10 ^ 21" using assms by simp
  then have "(of_int \<bar>k\<bar> :: rat) < of_int (10 ^ 21)" by (simp only: of_int_less_iff)
  then have small: "\<not> 10 ^ 21 \<le> \<bar>of_int k :: rat\<bar>" by simp
  have "\<lfloor>(of_int (\<bar>k\<bar> * 100) :: rat) + 1 / 2\<rfloor> = \<bar>k\<bar> * 100"
    by (rule floor_unique) simp_all
  then have "\<lfloor>\<bar>of_int k :: rat\<bar> * 100 + 1 / 2\<rfloor> = \<bar>k\<bar> * 100" by simp
  then have "sgn (of_int k :: rat) * of_int \<lfloor>\<bar>of_int k :: rat\<bar> * 100 + 1 / 2\<rfloor> / 100
               = sgn (of_int k) * of_int \<bar>k\<bar>"
    by simp
  also have "\<dots> = of_int k" by (simp add: sgn_if)
  finally show ?thesis
    using small round_double_of_int[OF assms] by (simp del: of_int_abs)
qed

lemma roi_taskA: "computeROI (revenue taskA) (timeTaken taskA) = Some (Fin 50)"
proof -
  have "fdiv (Fin 100) (Fin 2) = Fin 50" using round_double_of_int[of 50] by simp
  moreover have "number_toFixed2 (Fin 50) = Fin 50" using number_toFixed2_of_int[of 50] by simp
  ultimately show ?thesis
    by (simp add: computeROI_def taskA_def js_le_def del: fdiv.simps number_toFixed2.simps)
qed

lemma roi_taskB: "computeROI (revenue taskB) (timeTaken taskB) = Some (Fin 10)"
proof -
  have "fdiv (Fin 40) (Fin 4) = Fin 10" using round_double_of_int[of 10] by simp
  moreover have "number_toFixed2 (Fin 10) = Fin 10" using number_toFixed2_of_int[of 10] by simp
  ultimately show ?thesis
    by (simp add: computeROI_def taskB_def js_le_def del: fdiv.simps number_toFixed2.simps)
qed

text \<open>
  The theorem with comparison by character code for \<open>localeCompare\<close>, at the list of
  \<open>taskB\<close> (ROI 10) and \<open>taskA\<close> (ROI 50), held in the only array of the store.
\<close>

theorem sortTasks_ranking_witness:
  "sortTasks lexCompare (map withDerived [taskB, taskA]) = map withDerived [taskA, taskB]
   \<and> snd (sortTasks_ref lexCompare 0 [map withDerived [taskB, taskA]]) ! 0 = map withDerived [taskB, taskA]
   \<and> snd (sortTasks_ref lexCompare 0 [map withDerived [taskB, taskA]]) ! 1 = map withDerived [taskA, taskB]"
proof -
  let ?in = "map withDerived [taskB, taskA]" and ?out = "map withDerived [taskA, taskB]"
  note r = sortTasks_ranking [OF lexCompare_consistent, of "[taskA, taskB]"]
  note q = sortTasks_ranking [OF lexCompare_consistent, of "[taskB, taskA]"]
  have "spec_before lexCompare (withDerived taskA) (withDerived taskB)"
    by (simp add: spec_before_def withDerived_def roi_taskA roi_taskB orElse_def)
  then have "sorted_wrt (spec_before lexCompare) ?out" by simp
  with r have fixed: "sortTasks lexCompare ?out = ?out" by blast
  have "js_gt (compareTasks lexCompare (withDerived taskB) (withDerived taskA)) (Fin 0)"
  proof -
    have "\<not> spec_before lexCompare (withDerived taskB) (withDerived taskA)"
      by (simp add: spec_before_def withDerived_def roi_taskA roi_taskB orElse_def)
    then show ?thesis using compare_spec[OF withDerived_ok withDerived_ok, of lexCompare taskB taskA] by simp
  qed
  then have "sortTasks lexCompare ?in = ?out"
    by (simp add: sortTasks_def array_sort_def)
  moreover
  from q have "\<forall>h r0. r0 < length h \<and> h ! r0 = ?in \<longrightarrow>
            snd (sortTasks_ref lexCompare r0 h) ! fst (sortTasks_ref lexCompare r0 h)
               = sortTasks lexCompare ?in
          \<and> (\<forall>i < length h. snd (sortTasks_ref lexCompare r0 h) ! i = h ! i)" by blast
  then have "snd (sortTasks_ref lexCompare 0 [?in]) ! fst (sortTasks_ref lexCompare 0 [?in])
               = sortTasks lexCompare ?in
          \<and> (\<forall>i < length [?in]. snd (sortTasks_ref lexCompare 0 [?in]) ! i = [?in] ! i)"
    by (elim allE[of _ "[?in]"] allE[of _ "0::nat"]) simp
  moreover have "fst (sortTasks_ref lexCompare 0 [?in]) = 1"
    by (simp add: sortTasks_ref_result)
  ultimately show ?thesis by simp
qed

section \<open>Properties of the calendar\<close>

lemma YearFromDay_bounds:
  "DayFromYear (YearFromDay d) \<le> d" "d < DayFromYear (YearFromDay d + 1)"
proof -
  let ?y = "1970 + (400 * d) div 146097"
  have lo: "DayFromYear (?y - 1) \<le> d" unfolding DayFromYear_def by simp
  have hi: "d < DayFromYear (?y + 2)" unfolding DayFromYear_def by simp
  have e: "?y - 1 + 1 = ?y" "?y + 1 + 1 = ?y + 2" by simp_all
  show "DayFromYear (YearFromDay d) \<le> d"
    using lo unfolding YearFromDay_def Let_def by (auto simp: not_less)
  show "d < DayFromYear (YearFromDay d + 1)"
    using hi unfolding YearFromDay_def Let_def by (auto simp: not_le e)
qed

lemma DayFromYear_next: "DayFromYear (y + 1) \<le> DayFromYear y + 367"
  unfolding DayFromYear_def by simp

lemma DayFromYear_nonpos: "y \<le> 1970 \<Longrightarrow> DayFromYear y \<le> 0"
proof (cases "y = 1970")
  case True
  then show ?thesis by (simp add: DayFromYear_def)
next
  case False
  assume "y \<le> 1970"
  define u where "u = y - 1970"
  have y: "y = u + 1970" by (simp add: u_def)
  from False \<open>y \<le> 1970\<close> have u: "u \<le> - 1" by (simp add: u_def)
  define a b c where "a = (u + 1) div 4" and "b = (u + 69) div 100" and "c = (u + 369) div 400"
  have "4 * a \<le> u + 1" unfolding a_def by presburger
  moreover have "u - 30 \<le> 100 * b" unfolding b_def by presburger
  moreover have "400 * c \<le> u + 369" unfolding c_def by presburger
  ultimately have "365 * u + a - b + c \<le> 0" using u by linarith
  then show ?thesis unfolding DayFromYear_def y a_def b_def c_def by (simp add: add.commute)
qed

lemma YearFromDay_ge_1970: "0 \<le> d \<Longrightarrow> 1970 \<le> YearFromDay d"
proof (rule ccontr)
  assume d: "0 \<le> d" and "\<not> 1970 \<le> YearFromDay d"
  then have "YearFromDay d + 1 \<le> 1970" by simp
  then have "DayFromYear (YearFromDay d + 1) \<le> 0" by (rule DayFromYear_nonpos)
  with YearFromDay_bounds(2)[of d] d show False by simp
qed

lemma DayWithinYear_bounds: "0 \<le> d - DayFromYear (YearFromDay d)" "d - DayFromYear (YearFromDay d) < 367"
  using YearFromDay_bounds[of d] DayFromYear_next[of "YearFromDay d"] by simp_all

lemma MonthFromTime_range: "0 \<le> MonthFromTime t" "MonthFromTime t \<le> 11"
  by (simp_all add: MonthFromTime_def Let_def)

lemma MakeDay_same_month:
  "MakeDay (YearFromTime t) (MonthFromTime t) dt = Day t + (dt - DateFromTime t)"
proof -
  have m: "MonthFromTime t div 12 = 0" "MonthFromTime t mod 12 = MonthFromTime t"
    using MonthFromTime_range[of t] by simp_all
  show ?thesis
    by (simp add: MakeDay_def Let_def m DateFromTime_def DayWithinYear_def InLeapYear_def)
qed

lemma MakeDay_jan4: "MakeDay y 0 4 = DayFromYear y + 3"
  by (simp add: MakeDay_def monthStart_def)

lemma Day_MakeDate: "Day (MakeDate d 0) = d" "TimeWithinDay (MakeDate d 0) = 0"
  by (simp_all add: Day_def TimeWithinDay_def MakeDate_def msPerDay_def)

lemma TimeClip_Some: "\<bar>t\<bar> \<le> 8640000000000000 \<Longrightarrow> TimeClip t = Some t"
  by (simp add: TimeClip_def)

lemma weekday_from_monday: "((d + 4) mod 7 + 6) mod 7 = spec_weekdayFromMonday d"
  unfolding spec_weekdayFromMonday_def by presburger

lemma spec_thursday_bounds:
  "d - 3 \<le> spec_thursdayOfWeek d" "spec_thursdayOfWeek d \<le> d + 3"
  "0 \<le> d \<Longrightarrow> 0 \<le> spec_thursdayOfWeek d"
  unfolding spec_thursdayOfWeek_def spec_weekdayFromMonday_def by presburger+

lemma thursday_decomposition:
  fixes d j :: int
  defines "th \<equiv> spec_thursdayOfWeek d"
    and "ft \<equiv> j + (3 - spec_weekdayFromMonday j) mod 7"
  shows "th - (j + 3) = 7 * ((th - ft) div 7) + (ft - (j + 3))" "\<bar>ft - (j + 3)\<bar> \<le> 3"
  unfolding th_def ft_def spec_thursdayOfWeek_def spec_weekdayFromMonday_def by presburger+

text \<open>
  For a date from 1970 on (and some three thousand years short of the largest date),
  \<^verbatim>\<open>getWeekNumber\<close> returns the ISO-8601 week number of the specification.
\<close>

lemma getWeekNumber_iso:
  assumes t: "0 \<le> t" "t \<le> 8600000000000000"
  shows "getWeekNumber (Some t) = Fin (of_int (spec_isoWeekNumber (Day t)))"
proof -
  define day where "day = Day t"
  have d0: "0 \<le> day"
    using t(1) by (simp add: day_def Day_def msPerDay_def pos_imp_zdiv_nonneg_iff)
  have "t div 86400000 \<le> 8600000000000000 div 86400000"
    using t(2) by (intro zdiv_mono1) simp_all
  then have d1: "day \<le> 99537037" by (simp add: day_def Day_def msPerDay_def)
  note day = d0 d1
  define T0 where "T0 = MakeDate day 0"
  have y0: "MakeFullYear (YearFromTime t) = YearFromTime t"
    using YearFromDay_ge_1970[of "Day t"] day(1)
    by (simp add: MakeFullYear_def YearFromTime_def day_def)
  have "MakeDay (YearFromTime t) (MonthFromTime t) (DateFromTime t) = day"
    by (simp add: MakeDay_same_month day_def)
  then have target: "Date_UTC (getUTCFullYear (Some t)) (getUTCMonth (Some t)) (getUTCDate (Some t)) = Some T0"
    using day
    by (simp add: Date_UTC_def getUTCFullYear_def getUTCMonth_def getUTCDate_def y0 T0_def
        TimeClip_def MakeDate_def msPerDay_def)
  have dT0: "Day T0 = day" "TimeWithinDay T0 = 0" by (simp_all add: T0_def Day_MakeDate)
  define th where "th = spec_thursdayOfWeek day"
  have th: "0 \<le> th" "th \<le> day + 3" "day - 3 \<le> th"
    using spec_thursday_bounds[of day] day(1) by (simp_all add: th_def)
  define T1 where "T1 = MakeDate th 0"
  have dayNr: "map_option (\<lambda>w. (w + 6) mod 7) (getUTCDay (Some T0)) = Some (spec_weekdayFromMonday day)"
    by (simp add: getUTCDay_def WeekDay_def dT0 weekday_from_monday)
  have "MakeDay (YearFromTime T0) (MonthFromTime T0) (DateFromTime T0 - spec_weekdayFromMonday day + 3) = th"
    by (simp add: MakeDay_same_month dT0 th_def spec_thursdayOfWeek_def)
  then have target': "setUTCDate (Some T0) (Some (DateFromTime T0 - spec_weekdayFromMonday day + 3)) = Some T1"
    using th day
    by (simp add: setUTCDate_def dT0 T1_def TimeClip_def MakeDate_def msPerDay_def)
  have dT1: "Day T1 = th" by (simp add: T1_def Day_MakeDate)
  define Y where "Y = YearFromDay th"
  define j where "j = DayFromYear Y"
  have Y: "MakeFullYear Y = Y" using YearFromDay_ge_1970[OF th(1)] by (simp add: MakeFullYear_def Y_def)
  have j: "j \<le> th" "th - j < 367" using DayWithinYear_bounds[of th] by (simp_all add: j_def Y_def)
  define T2 where "T2 = MakeDate (j + 3) 0"
  have first: "Date_UTC (getUTCFullYear (Some T1)) (Some 0) (Some 4) = Some T2"
    using j th day
    by (simp add: Date_UTC_def getUTCFullYear_def YearFromTime_def dT1 Y [unfolded Y_def]
        MakeDay_jan4 T2_def j_def Y_def TimeClip_def MakeDate_def msPerDay_def)
  define n where "n = th - (j + 3)"
  have nb: "\<bar>n\<bar> \<le> 370" using j by (simp add: n_def)
  have "\<bar>T1 - T2\<bar> \<le> 2 ^ 53"
    using nb by (simp add: T1_def T2_def MakeDate_def msPerDay_def n_def)
  then have diff: "fsub (getTime (Some T1)) (getTime (Some T2)) = Fin (of_int (T1 - T2))"
    by (simp add: getTime_def fsub_of_int)
  have "T1 - T2 = n * 86400000"
    by (simp add: T1_def T2_def MakeDate_def msPerDay_def n_def algebra_simps)
  then have q: "(of_int (T1 - T2) :: rat) / 604800000 = of_int n / 7" by simp
  have c: "(7 * 24 * 3600 * 1000 :: rat) = 604800000" by simp
  have fd: "fdiv (Fin x) (Fin 604800000) = round_double (x / 604800000)" for x :: rat by simp
  have quot: "fdiv (Fin (of_int (T1 - T2))) (Fin (7 * 24 * 3600 * 1000)) = round_double (of_int n / 7)"
    unfolding c fd q ..
  define ft where "ft = j + (3 - spec_weekdayFromMonday j) mod 7"
  define k where "k = (th - ft) div 7"
  have dec: "n = 7 * k + (ft - (j + 3))" "\<bar>ft - (j + 3)\<bar> \<le> 3"
    using thursday_decomposition(1)[of day j] thursday_decomposition(2)[of j]
    by (simp_all add: n_def k_def ft_def th_def)
  have "\<bar>n\<bar> \<le> 2 ^ 40" using nb by simp
  with dec have mr: "math_round (round_double (of_int n / 7)) = Fin (of_int k)"
    by (rule round_sevenths)
  have kb: "\<bar>k\<bar> \<le> 60" using dec nb by linarith
  then have "\<bar>1 + k\<bar> \<le> 2 ^ 53" by simp
  from fadd_of_int[OF this] have week: "fadd (Fin 1) (Fin (of_int k)) = Fin (of_int (1 + k))" by simp
  have iso: "spec_isoWeekNumber day = 1 + k"
    by (simp add: spec_isoWeekNumber_def spec_firstThursdayOfYear_def Let_def k_def ft_def
        j_def Y_def th_def)
  have "getWeekNumber (Some t) = fadd (Fin 1) (math_round (fdiv (fsub (getTime (Some T1)) (getTime (Some T2)))
          (Fin (7 * 24 * 3600 * 1000))))"
    unfolding getWeekNumber_def Let_def target dayNr
    by (simp add: getUTCDate_def target' first del: fdiv.simps)
  also have "\<dots> = Fin (of_int (1 + k))"
    unfolding diff quot mr week ..
  finally show ?thesis using iso by (simp add: day_def)
qed

section \<open>Properties of the throughput by week\<close>

lemma map_of_map_set: "map_of (map_set m k v) k' = (if k' = k then Some v else map_of m k')"
  by (induction m) auto

lemma keys_map_set': "set (map fst (map_set m k v)) = insert k (set (map fst m))"
proof (induction m)
  case Nil
  then show ?case by simp
next
  case (Cons p m)
  then show ?case by (cases p) (simp add: insert_commute)
qed

lemma keys_map_set: "fst ` set (map_set m k v) = insert k (fst ` set m)"
  using keys_map_set'[of m k v] by simp

lemma distinct_map_set: "distinct (map fst m) \<Longrightarrow> distinct (map fst (map_set m k v))"
  by (induction m) (auto simp: keys_map_set)

lemma throughputStep_skip:
  "completedWeek parse t = None \<Longrightarrow> throughputStep parse m t = m"
  by (auto simp: completedWeek_def throughputStep_def split: option.splits if_splits)

lemma throughputStep_hit:
  "completedWeek parse t = Some k \<Longrightarrow>
     throughputStep parse m t =
       map_set m k (fst (orElse (map_of m k) (0, Fin 0)) + 1,
                    fadd (snd (orElse (map_of m k) (0, Fin 0))) (revenue t))"
  by (auto simp: completedWeek_def throughputStep_def Let_def split: option.splits if_splits)

lemma throughput_distinct:
  "distinct (map fst m) \<Longrightarrow> distinct (map fst (foldl (throughputStep parse) m ts))"
proof (induction ts arbitrary: m)
  case Nil
  then show ?case by simp
next
  case (Cons t ts)
  have "distinct (map fst (throughputStep parse m t))"
  proof (cases "completedWeek parse t")
    case None
    with Cons.prems show ?thesis by (simp add: throughputStep_skip)
  next
    case (Some k)
    with Cons.prems show ?thesis by (simp add: throughputStep_hit distinct_map_set)
  qed
  then show ?case using Cons.IH by simp
qed

text \<open>What the map holds for a week after the tasks \<open>ts\<close>, starting from the map \<open>m\<close>.\<close>

lemma throughput_lookup:
  "map_of (foldl (throughputStep parse) m ts) k =
     (let hits = filter (\<lambda>t. completedWeek parse t = Some k) ts
      in if hits = [] then map_of m k
         else Some (fst (orElse (map_of m k) (0, Fin 0)) + length hits,
                    foldl fadd (snd (orElse (map_of m k) (0, Fin 0))) (map revenue hits)))"
proof (induction ts arbitrary: m)
  case Nil
  then show ?case by simp
next
  case (Cons t ts)
  let ?m' = "throughputStep parse m t"
  show ?case
  proof (cases "completedWeek parse t = Some k")
    case True
    then have m': "map_of ?m' k = Some (fst (orElse (map_of m k) (0, Fin 0)) + 1,
                      fadd (snd (orElse (map_of m k) (0, Fin 0))) (revenue t))"
      by (simp add: throughputStep_hit map_of_map_set)
    show ?thesis
      using True by (simp add: Cons.IH[of ?m'] m' Let_def orElse_def)
  next
    case False
    have "map_of ?m' k = map_of m k"
    proof (cases "completedWeek parse t")
      case None
      then show ?thesis by (simp add: throughputStep_skip)
    next
      case (Some k')
      with False show ?thesis by (simp add: throughputStep_hit map_of_map_set)
    qed
    then show ?thesis using False by (simp add: Cons.IH[of ?m'] Let_def)
  qed
qed

lemma throughput_keys:
  "fst ` set (foldl (throughputStep parse) m ts)
     = fst ` set m \<union> {k. \<exists>t \<in> set ts. completedWeek parse t = Some k}"
proof (induction ts arbitrary: m)
  case Nil
  then show ?case by simp
next
  case (Cons t ts)
  show ?case
  proof (cases "completedWeek parse t")
    case None
    then show ?thesis by (auto simp: throughputStep_skip Cons.IH)
  next
    case (Some k)
    then show ?thesis by (auto simp: throughputStep_hit Cons.IH keys_map_set)
  qed
qed

lemma throughput_buckets:
  assumes lc: "consistent_comparator localeCompare"
  shows "distinct (map throughput_week (computeThroughputByWeek parse localeCompare ts))"
    and "set (map throughput_week (computeThroughputByWeek parse localeCompare ts))
           = {k. \<exists>t \<in> set ts. completedWeek parse t = Some k}"
    and "\<forall>e \<in> set (computeThroughputByWeek parse localeCompare ts).
           throughput_count e
             = length (filter (\<lambda>t. completedWeek parse t = Some (throughput_week e)) ts)
         \<and> throughput_revenue e
             = foldl fadd (Fin 0)
                 (map revenue (filter (\<lambda>t. completedWeek parse t = Some (throughput_week e)) ts))"
    and "sorted_wrt (\<lambda>a b. \<not> js_gt (localeCompare (throughput_week a) (throughput_week b)) (Fin 0))
           (computeThroughputByWeek parse localeCompare ts)"
proof -
  define m where "m = foldl (throughputStep parse) [] ts"
  define cmp where "cmp = (\<lambda>(a :: string \<times> nat \<times> number) (b :: string \<times> nat \<times> number).
      localeCompare (fst a) (fst b))"
  define srt where "srt = array_sort cmp m"
  define mk where "mk = (\<lambda>e :: string \<times> nat \<times> number.
      \<lparr> throughput_week = fst e, throughput_count = fst (snd e), throughput_revenue = snd (snd e) \<rparr>)"
  have R: "computeThroughputByWeek parse localeCompare ts = map mk srt"
    by (simp add: computeThroughputByWeek_def mk_def srt_def cmp_def m_def)
  have wk: "map throughput_week (map mk srt) = map fst srt" by (simp add: mk_def comp_def)
  have dm: "distinct (map fst m)" unfolding m_def by (rule throughput_distinct) simp
  have ms: "mset srt = mset m" unfolding srt_def by (rule array_sort_mset)
  then have "mset (map fst srt) = mset (map fst m)" by (metis mset_map)
  then have "distinct (map fst srt) = distinct (map fst m)" by (rule mset_eq_imp_distinct_iff)
  with dm show "distinct (map throughput_week (computeThroughputByWeek parse localeCompare ts))"
    unfolding R wk by simp
  have ss: "set srt = set m" unfolding srt_def by (rule array_sort_set)
  have keys: "fst ` set m = {k. \<exists>t \<in> set ts. completedWeek parse t = Some k}"
    unfolding m_def by (simp add: throughput_keys)
  show "set (map throughput_week (computeThroughputByWeek parse localeCompare ts))
           = {k. \<exists>t \<in> set ts. completedWeek parse t = Some k}"
    unfolding R wk using keys ss by simp
  show "\<forall>e \<in> set (computeThroughputByWeek parse localeCompare ts).
           throughput_count e
             = length (filter (\<lambda>t. completedWeek parse t = Some (throughput_week e)) ts)
         \<and> throughput_revenue e
             = foldl fadd (Fin 0)
                 (map revenue (filter (\<lambda>t. completedWeek parse t = Some (throughput_week e)) ts))"
  proof
    fix e assume "e \<in> set (computeThroughputByWeek parse localeCompare ts)"
    then obtain p where p: "p \<in> set m" and e: "e = mk p" unfolding R using ss by auto
    obtain k c v where pk: "p = (k, c, v)" by (cases p)
    let ?hits = "filter (\<lambda>t. completedWeek parse t = Some k) ts"
    from p pk dm have look: "map_of m k = Some (c, v)" by simp
    from p pk keys have "k \<in> {k. \<exists>t \<in> set ts. completedWeek parse t = Some k}" by force
    then have ne: "?hits \<noteq> []" by (auto simp: filter_empty_conv)
    have "map_of m k = Some (length ?hits, foldl fadd (Fin 0) (map revenue ?hits))"
      unfolding m_def using ne by (simp add: throughput_lookup Let_def orElse_def)
    with look have "c = length ?hits" "v = foldl fadd (Fin 0) (map revenue ?hits)" by simp_all
    then show "throughput_count e
             = length (filter (\<lambda>t. completedWeek parse t = Some (throughput_week e)) ts)
         \<and> throughput_revenue e
             = foldl fadd (Fin 0)
                 (map revenue (filter (\<lambda>t. completedWeek parse t = Some (throughput_week e)) ts))"
      by (simp add: e pk mk_def)
  qed
  have "sorted_wrt (\<lambda>a b. \<not> js_gt (cmp a b) (Fin 0)) (array_sort cmp m)"
  proof (rule array_sort_sorted[where S = UNIV])
    fix a b :: "string \<times> nat \<times> number"
    assume "js_gt (cmp a b) (Fin 0)"
    then show "\<not> js_gt (cmp b a) (Fin 0)"
      unfolding cmp_def by (rule comparator_total[OF lc])
  next
    fix a b c :: "string \<times> nat \<times> number"
    assume "\<not> js_gt (cmp a b) (Fin 0)" "\<not> js_gt (cmp b c) (Fin 0)"
    then show "\<not> js_gt (cmp a c) (Fin 0)"
      unfolding cmp_def by (rule comparator_trans[OF lc])
  qed simp
  then show "sorted_wrt (\<lambda>a b. \<not> js_gt (localeCompare (throughput_week a) (throughput_week b)) (Fin 0))
           (computeThroughputByWeek parse localeCompare ts)"
    unfolding R by (simp add: sorted_wrt_map srt_def mk_def cmp_def)
qed

lemma number_toString_of_int: "number_toString (Fin (of_int k)) = show_int k"
  by simp

lemma weekKey_iso:
  assumes "parse c = Some tv" "0 \<le> tv" "tv \<le> 8600000000000000"
  shows "weekKey parse c = show_int (YearFromTime tv) @ ''-W'' @ show_int (spec_isoWeekNumber (Day tv))"
  using assms
  by (simp add: weekKey_def Let_def getUTCFullYear_def int_toString_def getWeekNumber_iso
      del: number_toString.simps add: number_toString_of_int)

lemma parse_sample:
  "parseISO ''2024-01-08T00:00:00.000Z'' = Some 1704672000000"
  "parseISO ''2024-03-04T00:00:00.000Z'' = Some 1709510400000"
  by code_simp+

lemma calendar_sample:
  "YearFromTime 1704672000000 = 2024" "spec_isoWeekNumber (Day 1704672000000) = 2"
  "YearFromTime 1709510400000 = 2024" "spec_isoWeekNumber (Day 1709510400000) = 10"
  by code_simp+

lemma show_sample: "show_int 2024 = ''2024''" "show_int 2 = ''2''" "show_int 10 = ''10''"
  by code_simp+

lemma weekKey_sample:
  "weekKey parseISO ''2024-01-08T00:00:00.000Z'' = ''2024-W2''"
  "weekKey parseISO ''2024-03-04T00:00:00.000Z'' = ''2024-W10''"
  using weekKey_iso[of parseISO "''2024-01-08T00:00:00.000Z''" 1704672000000]
    weekKey_iso[of parseISO "''2024-03-04T00:00:00.000Z''" 1709510400000]
  by (simp_all add: parse_sample calendar_sample show_sample)

lemma lex_sample: "lexCompare ''2024-W2'' ''2024-W10'' = Fin 1"
  by code_simp

text \<open>
  What the function computes. The result has one entry for each key that a completed
  task has, and no key twice; the entry of a key counts the completed tasks with that key
  and adds up their revenue, in the order of the tasks; the entries are in ascending order
  of their keys under \<open>localeCompare\<close>. The key of a task completed at a valid date from
  1970 on is the UTC calendar year of the date, \<^verbatim>\<open>-W\<close>, and the ISO-8601 week number of
  the date, each in decimal digits without padding.
\<close>

theorem computeThroughputByWeek_buckets:
  assumes lc: "consistent_comparator localeCompare"
  shows "distinct (map throughput_week (computeThroughputByWeek parse localeCompare ts))
   \<and> set (map throughput_week (computeThroughputByWeek parse localeCompare ts))
         = {k. \<exists>t \<in> set ts. completedWeek parse t = Some k}
   \<and> (\<forall>e \<in> set (computeThroughputByWeek parse localeCompare ts).
           throughput_count e
             = length (filter (\<lambda>t. completedWeek parse t = Some (throughput_week e)) ts)
         \<and> throughput_revenue e
             = foldl fadd (Fin 0)
                 (map revenue (filter (\<lambda>t. completedWeek parse t = Some (throughput_week e)) ts)))
   \<and> sorted_wrt (\<lambda>a b. \<not> js_gt (localeCompare (throughput_week a) (throughput_week b)) (Fin 0))
         (computeThroughputByWeek parse localeCompare ts)
   \<and> (\<forall>t c tv. completedAt t = Some c \<and> c \<noteq> [] \<and> parse c = Some tv
                 \<and> 0 \<le> tv \<and> tv \<le> 8600000000000000
         \<longrightarrow> completedWeek parse t
               = Some (show_int (YearFromTime tv) @ ''-W'' @ show_int (spec_isoWeekNumber (Day tv))))"
proof -
  have "\<forall>t c tv. completedAt t = Some c \<and> c \<noteq> [] \<and> parse c = Some tv
                 \<and> 0 \<le> tv \<and> tv \<le> 8600000000000000
         \<longrightarrow> completedWeek parse t
               = Some (show_int (YearFromTime tv) @ ''-W'' @ show_int (spec_isoWeekNumber (Day tv)))"
    by (auto simp: completedWeek_def weekKey_iso)
  with throughput_buckets[OF lc, of parse ts] show ?thesis by blast
qed

text \<open>
  The same with \<open>parseISO\<close> and comparison by character code, at two tasks completed on
  2024-01-08 and 2024-03-04.
\<close>

theorem computeThroughputByWeek_buckets_witness:
  "completedWeek parseISO taskC = Some ''2024-W2''
   \<and> distinct (map throughput_week (computeThroughputByWeek parseISO lexCompare [taskC, taskD]))
   \<and> sorted_wrt (\<lambda>a b. \<not> js_gt (lexCompare (throughput_week a) (throughput_week b)) (Fin 0))
         (computeThroughputByWeek parseISO lexCompare [taskC, taskD])"
proof -
  note r = computeThroughputByWeek_buckets [OF lexCompare_consistent, of parseISO "[taskC, taskD]"]
  have h: "completedAt taskC = Some ''2024-01-08T00:00:00.000Z'' \<and> ''2024-01-08T00:00:00.000Z'' \<noteq> []
        \<and> parseISO ''2024-01-08T00:00:00.000Z'' = Some 1704672000000
        \<and> (0::int) \<le> 1704672000000 \<and> (1704672000000::int) \<le> 8600000000000000"
    by (simp add: taskC_def parse_sample)
  from r have "\<forall>t c tv. completedAt t = Some c \<and> c \<noteq> [] \<and> parseISO c = Some tv
                 \<and> 0 \<le> tv \<and> tv \<le> 8600000000000000
         \<longrightarrow> completedWeek parseISO t
               = Some (show_int (YearFromTime tv) @ ''-W'' @ show_int (spec_isoWeekNumber (Day tv)))"
    by blast
  with h have "completedWeek parseISO taskC
      = Some (show_int (YearFromTime 1704672000000) @ ''-W'' @ show_int (spec_isoWeekNumber (Day 1704672000000)))"
    by blast
  then have a: "completedWeek parseISO taskC = Some ''2024-W2''"
    by (simp add: calendar_sample show_sample)
  from r have b: "distinct (map throughput_week (computeThroughputByWeek parseISO lexCompare [taskC, taskD]))"
    by blast
  from r have c: "sorted_wrt (\<lambda>a b. \<not> js_gt (lexCompare (throughput_week a) (throughput_week b)) (Fin 0))
         (computeThroughputByWeek parseISO lexCompare [taskC, taskD])"
    by blast
  from a b c show ?thesis by blast
qed

lemma throughput_sample_order:
  "computeThroughputByWeek parseISO lexCompare [taskC, taskD]
     = [\<lparr> throughput_week = ''2024-W10'', throughput_count = 1, throughput_revenue = Fin 75 \<rparr>,
        \<lparr> throughput_week = ''2024-W2'', throughput_count = 1, throughput_revenue = Fin 250 \<rparr>]"
proof -
  have a: "fadd (Fin 0) (Fin 250) = Fin 250" "fadd (Fin 0) (Fin 75) = Fin 75"
    using round_double_of_int[of 250] round_double_of_int[of 75] by simp_all
  have s1: "throughputStep parseISO [] taskC = [(''2024-W2'', 1, Fin 250)]"
    by (simp add: throughputStep_def taskC_def weekKey_sample orElse_def a del: fadd.simps)
  have s2: "throughputStep parseISO [(''2024-W2'', 1, Fin 250)] taskD
              = [(''2024-W2'', 1, Fin 250), (''2024-W10'', 1, Fin 75)]"
    by (simp add: throughputStep_def taskD_def weekKey_sample orElse_def a del: fadd.simps)
  have fold: "foldl (throughputStep parseISO) [] [taskC, taskD]
                = [(''2024-W2'', 1, Fin 250), (''2024-W10'', 1, Fin 75)]"
    by (simp only: foldl.simps s1 s2)
  have srt: "array_sort (\<lambda>a b. lexCompare (fst a) (fst b)) [(''2024-W2'', 1::nat, Fin 250), (''2024-W10'', 1, Fin 75)]
          = [(''2024-W10'', 1, Fin 75), (''2024-W2'', 1, Fin 250)]"
    by (simp add: array_sort_def lex_sample js_gt_def del: lexCompare.simps)
  show ?thesis
    unfolding computeThroughputByWeek_def fold srt by simp
qed

lemma parse_sample_year:
  "parseISO ''2024-01-01T00:00:00.000Z'' = Some 1704067200000"
  "parseISO ''2024-12-30T00:00:00.000Z'' = Some 1735516800000"
  by code_simp+

lemma calendar_sample_year:
  "YearFromTime 1704067200000 = 2024" "spec_isoWeekNumber (Day 1704067200000) = 1"
  "YearFromTime 1735516800000 = 2024" "spec_isoWeekNumber (Day 1735516800000) = 1"
  "spec_isoWeekYear (Day 1704067200000) = 2024" "spec_isoWeekYear (Day 1735516800000) = 2025"
  by code_simp+

lemma show_sample_year: "show_int 1 = ''1''"
  by code_simp

lemma weekKey_sample_year:
  "weekKey parseISO ''2024-01-01T00:00:00.000Z'' = ''2024-W1''"
  "weekKey parseISO ''2024-12-30T00:00:00.000Z'' = ''2024-W1''"
  using weekKey_iso[of parseISO "''2024-01-01T00:00:00.000Z''" 1704067200000]
    weekKey_iso[of parseISO "''2024-12-30T00:00:00.000Z''" 1735516800000]
  by (simp_all add: parse_sample_year calendar_sample_year show_sample show_sample_year)

lemma throughput_sample_year:
  "computeThroughputByWeek parseISO lexCompare [taskG, taskH]
     = [\<lparr> throughput_week = ''2024-W1'', throughput_count = 2, throughput_revenue = Fin 150 \<rparr>]"
proof -
  have a: "fadd (Fin 0) (Fin 120) = Fin 120" "fadd (Fin 120) (Fin 30) = Fin 150"
    using round_double_of_int[of 120] round_double_of_int[of 150] by simp_all
  have s1: "throughputStep parseISO [] taskG = [(''2024-W1'', 1, Fin 120)]"
    by (simp add: throughputStep_def taskG_def weekKey_sample_year orElse_def a del: fadd.simps)
  have s2: "throughputStep parseISO [(''2024-W1'', 1, Fin 120)] taskH
              = [(''2024-W1'', 2, Fin 150)]"
    by (simp add: throughputStep_def taskH_def weekKey_sample_year orElse_def a del: fadd.simps)
  have fold: "foldl (throughputStep parseISO) [] [taskG, taskH] = [(''2024-W1'', 2, Fin 150)]"
    by (simp only: foldl.simps s1 s2)
  have srt: "array_sort (\<lambda>a b. lexCompare (fst a) (fst b)) [(''2024-W1'', 2::nat, Fin 150)]
          = [(''2024-W1'', 2, Fin 150)]"
    by (simp add: array_sort_def)
  show ?thesis
    unfolding computeThroughputByWeek_def fold srt by simp
qed

text \<open>
  Claim C7 says that the tasks are bucketed by ISO week, year and week number, and that
  the weeks come out in ascending lexical, and hence chronological, order. The key is
  \<^verbatim>\<open>`${d.getUTCFullYear()}-W${getWeekNumber(d)}`\<close>, and it fails the claim twice. The week
  number has no leading zero, so the key of week 10 sorts in front of the key of week 2:
  of a task completed on 2024-01-08 and one completed on 2024-03-04, the later one comes
  first. And the year is the calendar year, not the year of the ISO week: 2024-01-01 is
  in week 1 of 2024 and 2024-12-30 in week 1 of 2025, and tasks completed on the two days
  are counted in the one bucket \<^verbatim>\<open>2024-W1\<close>.
\<close>

theorem computeThroughputByWeek_week_keys:
  "computeThroughputByWeek parseISO lexCompare [taskC, taskD]
     = [\<lparr> throughput_week = ''2024-W10'', throughput_count = 1, throughput_revenue = Fin 75 \<rparr>,
        \<lparr> throughput_week = ''2024-W2'', throughput_count = 1, throughput_revenue = Fin 250 \<rparr>]
   \<and> completedAt taskC = Some ''2024-01-08T00:00:00.000Z''
   \<and> completedAt taskD = Some ''2024-03-04T00:00:00.000Z''
   \<and> parseISO ''2024-01-08T00:00:00.000Z'' = Some 1704672000000
   \<and> parseISO ''2024-03-04T00:00:00.000Z'' = Some 1709510400000
   \<and> (1704672000000 :: int) < 1709510400000
   \<and> computeThroughputByWeek parseISO lexCompare [taskG, taskH]
     = [\<lparr> throughput_week = ''2024-W1'', throughput_count = 2, throughput_revenue = Fin 150 \<rparr>]
   \<and> completedAt taskG = Some ''2024-01-01T00:00:00.000Z''
   \<and> completedAt taskH = Some ''2024-12-30T00:00:00.000Z''
   \<and> parseISO ''2024-01-01T00:00:00.000Z'' = Some 1704067200000
   \<and> parseISO ''2024-12-30T00:00:00.000Z'' = Some 1735516800000
   \<and> spec_isoWeekYear (Day 1704067200000) = 2024
   \<and> spec_isoWeekNumber (Day 1704067200000) = 1
   \<and> spec_isoWeekYear (Day 1735516800000) = 2025
   \<and> spec_isoWeekNumber (Day 1735516800000) = 1"
proof -
  have c: "completedAt taskC = Some ''2024-01-08T00:00:00.000Z''"
    "completedAt taskD = Some ''2024-03-04T00:00:00.000Z''"
    "completedAt taskG = Some ''2024-01-01T00:00:00.000Z''"
    "completedAt taskH = Some ''2024-12-30T00:00:00.000Z''"
    by (simp_all add: taskC_def taskD_def taskG_def taskH_def)
  have lt: "(1704672000000 :: int) < 1709510400000" by simp
  show ?thesis
    by (intro conjI)
      (simp_all only: throughput_sample_order throughput_sample_year c lt parse_sample
        parse_sample_year calendar_sample_year)
qed

section \<open>Velocity by priority\<close>

text \<open>
  The quotient of a difference of two instants by the milliseconds of a day is rounded to
  a double before \<^verbatim>\<open>Math.round\<close> rounds it to an integer. For differences below \<open>2^25\<close>
  days the two roundings give the integer that rounding the exact quotient gives.
\<close>

lemma round_days_pos:
  assumes n: "0 < n" "n < 2 ^ 25 * 86400000"
  shows "math_round (round_double (of_int n / 86400000)) = Fin (of_int \<lfloor>(of_int n :: rat) / 86400000 + 1 / 2\<rfloor>)"
proof -
  let ?q = "of_int n / 86400000 :: rat"
  define k where "k = \<lfloor>?q + 1 / 2\<rfloor>"
  have q: "0 < ?q" using n(1) by simp
  have "(of_int n :: rat) < of_int (2 ^ 25 * 86400000)" using n(2) by (simp only: of_int_less_iff)
  then have "?q < 2 ^ 25" by (simp add: divide_less_eq)
  then have q25: "?q < 2 powi 25" by simp
  have b: "binade ?q \<le> - 28 + 52" using binade_le[OF q q25] by simp
  have fin: "round_double ?q = Fin (rounded ?q)"
    using q25 by (intro round_double_finite[OF q, of 25]) simp_all
  have p28: "(2::rat) powi (- 28) = 1 / 2 ^ 28" by (simp add: power_int_minus_divide)
  have k1: "of_int k \<le> ?q + 1 / 2" and k2: "?q + 1 / 2 < of_int k + 1"
    unfolding k_def by linarith+
  have "of_int (2 * k - 1) * 2 ^ 27 / 2 ^ 28 = (of_int k :: rat) - 1 / 2" by simp
  then have "of_int ((2 * k - 1) * 2 ^ 27) * 2 powi (- 28) \<le> ?q"
    unfolding p28 using k1 by simp
  from rounded_ge[OF q b this] have lo: "of_int k - 1 / 2 \<le> rounded ?q"
    unfolding p28 by simp
  have "(of_int (2 * n) :: rat) < of_int ((2 * k + 1) * 86400000)"
    using k2 by (simp add: field_simps)
  then have "2 * n < (2 * k + 1) * 86400000" by (simp only: of_int_less_iff)
  then have "2 * n + 1 \<le> (2 * k + 1) * 86400000" by simp
  then have "(of_int (2 * n + 1) :: rat) \<le> of_int ((2 * k + 1) * 86400000)" by (simp only: of_int_le_iff)
  then have "?q \<le> of_int k + 1 / 2 - 1 / 172800000" by (simp add: field_simps)
  also have "\<dots> \<le> of_int k + 1 / 2 - 1 / 2 ^ 28" by simp
  also have "\<dots> = of_int ((2 * k + 1) * 2 ^ 27 - 1) * 2 powi (- 28)" unfolding p28 by simp
  finally have "?q \<le> of_int ((2 * k + 1) * 2 ^ 27 - 1) * 2 powi (- 28)" .
  from rounded_le[OF q b this] have hi: "rounded ?q \<le> of_int k + 1 / 2 - 1 / 2 ^ 28"
    unfolding p28 by simp
  have "\<lfloor>rounded ?q + 1 / 2\<rfloor> = k" using lo hi by (intro floor_unique) simp_all
  then show ?thesis unfolding fin k_def by simp
qed

lemma round_days:
  assumes "\<bar>n\<bar> < 2 ^ 25 * 86400000"
  shows "math_max (Fin 0) (math_round (round_double (of_int n / 86400000)))
           = Fin (of_int (max 0 \<lfloor>(of_int n :: rat) / 86400000 + 1 / 2\<rfloor>))"
proof -
  consider "n = 0" | "0 < n" | "n < 0" by linarith
  then show ?thesis
  proof cases
    case 1
    then show ?thesis by (simp add: round_double_def math_max_def)
  next
    case 2
    define k where "k = \<lfloor>(of_int n :: rat) / 86400000 + 1 / 2\<rfloor>"
    have "(0::rat) \<le> of_int n / 86400000 + 1 / 2" using 2 by simp
    then have k0: "0 \<le> k" unfolding k_def by (simp only: zero_le_floor)
    have "math_round (round_double (of_int n / 86400000)) = Fin (of_int k)"
      unfolding k_def using 2 assms by (intro round_days_pos) simp_all
    moreover have "math_max (Fin 0) (Fin (of_int k)) = Fin (of_int (max 0 k))"
      using k0 by (cases "k = 0") (simp_all add: math_max_def max_def)
    ultimately show ?thesis unfolding k_def by simp
  next
    case 3
    let ?q = "of_int n / 86400000 :: rat"
    have "js_le (Fin 0) (round_double (- ?q))" using 3 by (intro round_double_nonneg) simp
    then obtain r where "round_double (- ?q) = Fin r \<or> round_double (- ?q) = PInf" "0 \<le> r"
      by (cases "round_double (- ?q)") (auto simp: js_le_def)
    moreover have "round_double (- ?q) \<noteq> PInf"
    proof -
      have "(of_int (- n) :: rat) < of_int (2 ^ 25 * 86400000)" using assms 3 by (simp only: of_int_less_iff)
      then have "- ?q < 2 ^ 25" by (simp add: divide_less_eq)
      then have "- ?q \<le> 2 powi 25" by simp
      moreover have "0 < - ?q" using 3 by simp
      ultimately have "round_double (- ?q) = Fin (rounded (- ?q))"
        by (intro round_double_finite[of _ 25]) simp_all
      then show ?thesis by simp
    qed
    ultimately have r: "round_double (- ?q) = Fin r" "0 \<le> r" by auto
    have "round_double (- ?q) = fneg (round_double ?q)" by (rule round_double_minus)
    with r(1) have rq: "round_double ?q = Fin (- r)" by (cases "round_double ?q") simp_all
    define m where "m = \<lfloor>- r + 1 / 2\<rfloor>"
    define k where "k = \<lfloor>?q + 1 / 2\<rfloor>"
    have m: "m \<le> 0" unfolding m_def using r(2) by (simp add: floor_le_iff)
    have k: "k \<le> 0" unfolding k_def using 3 by (simp add: floor_le_iff)
    have "math_round (round_double ?q) = Fin (of_int m)" unfolding rq m_def by simp
    moreover have "math_max (Fin 0) (Fin (of_int m)) = Fin 0" using m by (simp add: math_max_def)
    moreover have "Fin (of_int (max 0 k)) = Fin 0" using k by (simp add: max_def)
    ultimately show ?thesis unfolding k_def by simp
  qed
qed

lemma daysBetween_exact:
  assumes "parse a = Some ta" "parse b = Some tb" "\<bar>tb - ta\<bar> < 2 ^ 25 * 86400000"
  shows "daysBetween parse a b = Fin (of_int (spec_wholeDays ta tb))"
proof -
  have "\<bar>tb - ta\<bar> \<le> 2 ^ 53" using assms(3) by simp
  then have d: "fsub (Fin (of_int tb)) (Fin (of_int ta)) = Fin (of_int (tb - ta))"
    by (rule fsub_of_int)
  have c: "(24 * 3600 * 1000 :: rat) = 86400000" by simp
  have fd: "fdiv (Fin x) (Fin 86400000) = round_double (x / 86400000)" for x :: rat by simp
  show ?thesis
    unfolding daysBetween_def Let_def assms(1,2) getTime_def option.case d c fd spec_wholeDays_def
    using assms(3) by (rule round_days)
qed

lemma velocityStep_group:
  "velocityStep parse g t p
     = g p @ (case completedDays parse p t of None \<Rightarrow> [] | Some d \<Rightarrow> [d])"
  by (simp add: velocityStep_def completedDays_def split: option.splits)

lemma velocity_groups:
  "foldl (velocityStep parse) g ts p = g p @ List.map_filter (completedDays parse p) ts"
proof (induction ts arbitrary: g)
  case Nil
  then show ?case by simp
next
  case (Cons t ts)
  have "foldl (velocityStep parse) g (t # ts) p
          = velocityStep parse g t p @ List.map_filter (completedDays parse p) ts"
    by (simp only: foldl.simps Cons.IH)
  also have "velocityStep parse g t p
          = g p @ (case completedDays parse p t of None \<Rightarrow> [] | Some d \<Rightarrow> [d])"
    by (rule velocityStep_group)
  finally show ?case by (simp split: option.splits)
qed

lemma completedDays_exact1:
  assumes "dates_in_range parse t"
  shows "completedDays parse p t = map_option (\<lambda>k. Fin (of_int k)) (spec_completedDays parse p t)"
proof (cases "completedDays parse p t")
  case None
  then show ?thesis
    using assms
    by (auto simp: spec_completedDays_def completedDays_def split: option.splits if_splits)
next
  case (Some d)
  then obtain c where c: "completedAt t = Some c" "c \<noteq> []" "priority t = p"
    and d: "d = daysBetween parse (createdAt t) c"
    by (auto simp: completedDays_def split: option.splits if_splits)
  from assms c obtain ta tb where p: "parse (createdAt t) = Some ta" "parse c = Some tb"
    "\<bar>tb - ta\<bar> < 2 ^ 25 * 86400000"
    by (auto simp: dates_in_range_def split: option.splits)
  have "d = Fin (of_int (spec_wholeDays ta tb))" unfolding d using p by (rule daysBetween_exact)
  then show ?thesis
    using Some c p by (simp add: spec_completedDays_def)
qed

lemma completedDays_exact:
  assumes "\<forall>t \<in> set ts. dates_in_range parse t"
  shows "List.map_filter (completedDays parse p) ts
           = map (\<lambda>k. Fin (of_int k)) (spec_dayCounts parse p ts)"
  using assms unfolding spec_dayCounts_def
proof (induction ts)
  case Nil
  then show ?case by simp
next
  case (Cons t ts)
  then have ih: "List.map_filter (completedDays parse p) ts
           = map (\<lambda>k. Fin (of_int k)) (List.map_filter (spec_completedDays parse p) ts)" by simp
  from Cons.prems have "dates_in_range parse t" by simp
  then have "completedDays parse p t = map_option (\<lambda>k. Fin (of_int k)) (spec_completedDays parse p t)"
    by (rule completedDays_exact1)
  then show ?case
    using ih by (cases "spec_completedDays parse p t") simp_all
qed

lemma sort_insert_ints:
  "sort_insert (\<lambda>a b. fsub a b) (Fin (of_int x)) (map (\<lambda>k. Fin (of_int k)) ys)
     = map (\<lambda>k. Fin (of_int k)) (insort x ys)"
proof (induction ys)
  case Nil
  then show ?case by simp
next
  case (Cons y ys)
  have "js_gt (fsub (Fin (of_int x)) (Fin (of_int y))) (Fin 0) = js_lt (Fin (of_int y)) (Fin (of_int x))"
    by (rule fsub_sign) (simp_all add: on_grid_of_int)
  then have "js_gt (fsub (Fin (of_int x)) (Fin (of_int y))) (Fin 0) = (y < x)" by simp
  then show ?case using Cons by (auto simp del: fsub_def)
qed

lemma array_sort_ints:
  "array_sort (\<lambda>a b. fsub a b) (map (\<lambda>k. Fin (of_int k)) ks) = map (\<lambda>k. Fin (of_int k)) (sort ks)"
proof (induction ks)
  case Nil
  then show ?case by (simp add: array_sort_Nil)
next
  case (Cons k ks)
  then show ?case by (simp add: array_sort_Cons sort_insert_ints)
qed

lemma foldl_fadd_ints:
  assumes "0 \<le> a" "\<forall>k \<in> set ks. 0 \<le> k" "a + sum_list ks \<le> 2 ^ 53"
  shows "foldl fadd (Fin (of_int a)) (map (\<lambda>k. Fin (of_int k)) ks) = Fin (of_int (a + sum_list ks))"
  using assms
proof (induction ks arbitrary: a)
  case Nil
  then show ?case by simp
next
  case (Cons k ks)
  have s: "0 \<le> sum_list ks" using Cons.prems(2) by (intro sum_list_nonneg) simp
  have k: "0 \<le> k" using Cons.prems(2) by simp
  have "\<bar>a + k\<bar> \<le> 2 ^ 53" using Cons.prems(1,3) k s by simp
  then have f: "fadd (Fin (of_int a)) (Fin (of_int k)) = Fin (of_int (a + k))" by (rule fadd_of_int)
  have "foldl fadd (Fin (of_int (a + k))) (map (\<lambda>k. Fin (of_int k)) ks)
          = Fin (of_int (a + k + sum_list ks))"
    using Cons.prems k by (intro Cons.IH) simp_all
  then show ?case by (simp add: f add.assoc del: fadd.simps)
qed

lemma spec_dayCounts_nonneg: "\<forall>k \<in> set (spec_dayCounts parse p ts). 0 \<le> k"
  unfolding spec_dayCounts_def
proof (induction ts)
  case Nil
  then show ?case by simp
next
  case (Cons t ts)
  have "spec_completedDays parse p t = Some k \<Longrightarrow> 0 \<le> k" for k
    by (auto simp: spec_completedDays_def spec_wholeDays_def split: option.splits if_splits)
  then show ?case using Cons by (cases "spec_completedDays parse p t") auto
qed

lemma parse_sample_days:
  "parseISO ''2024-01-05T08:00:00.000Z'' = Some 1704441600000"
  "parseISO ''2024-01-06T08:00:00.000Z'' = Some 1704528000000"
  "parseISO ''2024-01-08T08:00:00.000Z'' = Some 1704700800000"
  "parseISO ''2024-01-02T08:00:00.000Z'' = Some 1704182400000"
  by code_simp+

lemma spec_wholeDays_div:
  "spec_wholeDays ta tb = max 0 ((2 * (tb - ta) + 86400000) div 172800000)"
proof -
  have "(of_int (tb - ta) :: rat) / 86400000 + 1 / 2
          = of_int (2 * (tb - ta) + 86400000) / of_int 172800000"
    by (simp add: field_simps)
  then show ?thesis
    unfolding spec_wholeDays_def by (simp only: floor_divide_of_int_eq)
qed

lemma spec_median_sample: "spec_median [1, 3] = 2"
  by (simp add: spec_median_def)

lemma daysBetween_sample:
  "daysBetween parseISO ''2024-01-05T08:00:00.000Z'' ''2024-01-06T08:00:00.000Z'' = Fin (of_int 1)"
  "daysBetween parseISO ''2024-01-05T08:00:00.000Z'' ''2024-01-08T08:00:00.000Z'' = Fin (of_int 3)"
proof -
  have "daysBetween parseISO ''2024-01-05T08:00:00.000Z'' ''2024-01-06T08:00:00.000Z''
          = Fin (of_int (spec_wholeDays 1704441600000 1704528000000))"
    by (rule daysBetween_exact) (simp_all add: parse_sample_days)
  then show "daysBetween parseISO ''2024-01-05T08:00:00.000Z'' ''2024-01-06T08:00:00.000Z'' = Fin (of_int 1)"
    by (simp add: spec_wholeDays_div)
  have "daysBetween parseISO ''2024-01-05T08:00:00.000Z'' ''2024-01-08T08:00:00.000Z''
          = Fin (of_int (spec_wholeDays 1704441600000 1704700800000))"
    by (rule daysBetween_exact) (simp_all add: parse_sample_days)
  then show "daysBetween parseISO ''2024-01-05T08:00:00.000Z'' ''2024-01-08T08:00:00.000Z'' = Fin (of_int 3)"
    by (simp add: spec_wholeDays_div)
qed

text \<open>
  What the function computes. When the dates of the completed tasks are valid and less
  than \<open>2^25\<close> days apart, and the day counts of a priority add up to at most \<open>2^53\<close>: the
  day counts of the priority are those of its tasks that have a non-empty completedAt,
  each the days between createdAt and completedAt rounded to the nearest whole day and
  floored at 0; for an empty group both results are 0; otherwise \<open>avgDays\<close> is the
  arithmetic mean of the day counts, rounded to the nearest double, and \<open>medianDays\<close> is
  the element at index \<open>\<lfloor>n / 2\<rfloor>\<close> of the \<open>n\<close> day counts in ascending order.
\<close>

theorem computeVelocityByPriority_upper_median:
  assumes range: "\<forall>t \<in> set ts. dates_in_range parse t"
    and total: "sum_list (spec_dayCounts parse p ts) \<le> 2 ^ 53"
  shows "(spec_dayCounts parse p ts = [] \<longrightarrow>
            avgDays (computeVelocityByPriority parse ts p) = Fin 0
          \<and> medianDays (computeVelocityByPriority parse ts p) = Fin 0)
       \<and> (spec_dayCounts parse p ts \<noteq> [] \<longrightarrow>
            avgDays (computeVelocityByPriority parse ts p)
              = round_double (of_int (sum_list (spec_dayCounts parse p ts))
                                / of_nat (length (spec_dayCounts parse p ts)))
          \<and> medianDays (computeVelocityByPriority parse ts p)
              = Fin (of_int (sort (spec_dayCounts parse p ts)
                               ! (length (spec_dayCounts parse p ts) div 2))))
       \<and> (\<forall>k \<in> set (spec_dayCounts parse p ts). 0 \<le> k)"
proof -
  define ks where "ks = spec_dayCounts parse p ts"
  define arr where "arr = map (\<lambda>k. Fin (of_int k)) (sort ks)"
  have nn: "\<forall>k \<in> set ks. 0 \<le> k" unfolding ks_def by (rule spec_dayCounts_nonneg)
  have g: "foldl (velocityStep parse) (\<lambda>p. []) ts p = map (\<lambda>k. Fin (of_int k)) ks"
    unfolding ks_def by (simp add: velocity_groups completedDays_exact[OF range])
  have a: "array_sort (\<lambda>a b. fsub a b) (foldl (velocityStep parse) (\<lambda>p. []) ts p) = arr"
    unfolding g arr_def by (rule array_sort_ints)
  have len: "length arr = length ks" by (simp add: arr_def)
  have avg: "avgDays (computeVelocityByPriority parse ts p)
               = (if length arr \<noteq> 0 then fdiv (foldl fadd (Fin 0) arr) (Fin (of_nat (length arr))) else Fin 0)"
    and med: "medianDays (computeVelocityByPriority parse ts p)
               = (if length arr \<noteq> 0 then arr ! (length arr div 2) else Fin 0)"
    by (simp_all add: computeVelocityByPriority_def Let_def a del: fdiv.simps)
  have "sum_list (sort ks) = sum_list ks"
    by (metis mset_sort sum_mset_sum_list)
  then have "foldl fadd (Fin (of_int 0)) arr = Fin (of_int (0 + sum_list ks))"
    unfolding arr_def using nn total
    by (subst foldl_fadd_ints) (simp_all add: ks_def)
  then have sum: "foldl fadd (Fin 0) arr = Fin (of_int (sum_list ks))" by simp
  have e: "ks = [] \<longrightarrow> avgDays (computeVelocityByPriority parse ts p) = Fin 0
          \<and> medianDays (computeVelocityByPriority parse ts p) = Fin 0"
    unfolding avg med len by simp
  have n: "ks \<noteq> [] \<longrightarrow>
            avgDays (computeVelocityByPriority parse ts p)
              = round_double (of_int (sum_list ks) / of_nat (length ks))
          \<and> medianDays (computeVelocityByPriority parse ts p)
              = Fin (of_int (sort ks ! (length ks div 2)))"
  proof
    assume ne: "ks \<noteq> []"
    then have l: "length ks \<noteq> 0" "length ks div 2 < length (sort ks)" by simp_all
    have "arr ! (length ks div 2) = Fin (of_int (sort ks ! (length ks div 2)))"
      unfolding arr_def using l(2) by (rule nth_map)
    moreover have "fdiv (Fin (of_int (sum_list ks))) (Fin (of_nat (length ks)))
                     = round_double (of_int (sum_list ks) / of_nat (length ks))"
      using l(1) by simp
    ultimately show "avgDays (computeVelocityByPriority parse ts p)
              = round_double (of_int (sum_list ks) / of_nat (length ks))
          \<and> medianDays (computeVelocityByPriority parse ts p)
              = Fin (of_int (sort ks ! (length ks div 2)))"
      unfolding avg med len sum using l(1) by simp
  qed
  from e n nn show ?thesis unfolding ks_def by blast
qed

theorem computeVelocityByPriority_upper_median_witness:
  "spec_dayCounts parseISO High [taskF, taskC, taskE] = [3, 1]
   \<and> avgDays (computeVelocityByPriority parseISO [taskF, taskC, taskE] High) = Fin 2
   \<and> medianDays (computeVelocityByPriority parseISO [taskF, taskC, taskE] High) = Fin 3"
proof -
  have k: "spec_dayCounts parseISO High [taskF, taskC, taskE] = [3, 1]"
    by (simp add: spec_dayCounts_def spec_completedDays_def spec_wholeDays_div
        taskC_def taskE_def taskF_def parse_sample_days)
  have r: "\<forall>t \<in> set [taskF, taskC, taskE]. dates_in_range parseISO t"
    by (simp add: dates_in_range_def taskC_def taskE_def taskF_def parse_sample_days parse_sample)
  have t: "sum_list (spec_dayCounts parseISO High [taskF, taskC, taskE]) \<le> 2 ^ 53"
    unfolding k by simp
  have "round_double (of_int 2) = Fin (of_int 2)" by (rule round_double_of_int) simp
  then have d: "round_double 2 = Fin 2" by simp
  from computeVelocityByPriority_upper_median[OF r t]
  have "avgDays (computeVelocityByPriority parseISO [taskF, taskC, taskE] High)
              = round_double (of_int (sum_list (spec_dayCounts parseISO High [taskF, taskC, taskE]))
                                / of_nat (length (spec_dayCounts parseISO High [taskF, taskC, taskE])))
          \<and> medianDays (computeVelocityByPriority parseISO [taskF, taskC, taskE] High)
              = Fin (of_int (sort (spec_dayCounts parseISO High [taskF, taskC, taskE])
                               ! (length (spec_dayCounts parseISO High [taskF, taskC, taskE]) div 2)))"
    unfolding k by blast
  then show ?thesis unfolding k by (simp add: d)
qed

text \<open>
  Claim C8 says that each group reports the mean and the median of its day counts. The
  code computes \<^verbatim>\<open>median\<close> as \<^verbatim>\<open>arr[Math.floor(arr.length / 2)]\<close>, which is the median
  only when the group has an odd number of day counts. Two High tasks that took 1 and 3
  days have the median 2, the mean of the two middle values, and the mean 2; the code
  reports \<open>medianDays = 3\<close>, the element at index \<open>\<lfloor>2 / 2\<rfloor> = 1\<close> of the sorted counts.
\<close>

theorem velocity_median_is_upper_middle:
  "foldl (velocityStep parseISO) (\<lambda>p. []) [taskE, taskF] High = [Fin 1, Fin 3]
   \<and> medianDays (computeVelocityByPriority parseISO [taskE, taskF] High) = Fin 3
   \<and> avgDays (computeVelocityByPriority parseISO [taskE, taskF] High) = Fin 2
   \<and> spec_median [1, 3] = 2"
proof -
  have g: "foldl (velocityStep parseISO) (\<lambda>p. []) [taskE, taskF] High
             = map (\<lambda>k. Fin (of_int k)) [1, 3]"
    by (simp add: velocityStep_def taskE_def taskF_def daysBetween_sample)
  have a: "array_sort (\<lambda>a b. fsub a b) (foldl (velocityStep parseISO) (\<lambda>p. []) [taskE, taskF] High)
             = map (\<lambda>k. Fin (of_int k)) (sort [1, 3])"
    unfolding g by (rule array_sort_ints)
  have o: "sort [1, 3 :: int] = [1, 3]" by simp
  have s: "foldl fadd (Fin (of_int 0)) (map (\<lambda>k. Fin (of_int k)) [1, 3]) = Fin (of_int (0 + sum_list [1, 3]))"
    by (rule foldl_fadd_ints) simp_all
  have "round_double (of_int 2) = Fin (of_int 2)" by (rule round_double_of_int) simp
  then have d: "fdiv (Fin 4) (Fin 2) = Fin 2" by simp
  have m: "medianDays (computeVelocityByPriority parseISO [taskE, taskF] High) = Fin 3"
    by (simp only: computeVelocityByPriority_def Let_def a o velocity.select_convs) simp
  have f: "foldl fadd (Fin 0) (map (\<lambda>k. Fin (of_int k)) [1, 3]) = Fin 4" using s by simp
  have v: "avgDays (computeVelocityByPriority parseISO [taskE, taskF] High) = Fin 2"
    by (simp only: computeVelocityByPriority_def Let_def a o f velocity.select_convs)
      (simp add: d del: fdiv.simps)
  from g m v spec_median_sample show ?thesis by simp
qed

end
